theory Spec2Isabelle
  imports Complex_Main "HOL-Library.Word"
begin

section \<open>Bytes and buffers\<close>

type_synonym byte = "8 word"
type_synonym bytes = "byte list"

text \<open>Exceptions of the Python sources, as values.\<close>

datatype py_exc =
    ValueError
  | StructError
  | ZeroDivisionError
  | FileExistsError
  | FileNotFoundError
  | ImageError
  | OverflowError
  | NotADirectoryError

section \<open>main\_images.py: the marker scan of \<open>parse_mpo_for_second_image\<close>\<close>

text \<open>
  \<^verbatim>\<open>(b0, b1, b2, b3) == pattern1 or (b0, b1, b2, b3) == pattern2\<close> at offset \<open>i\<close>.
  The loop guard \<open>i <= n - 4\<close> keeps all four reads in range.
\<close>

definition marker_at :: "bytes \<Rightarrow> nat \<Rightarrow> bool" where
  "marker_at buf i =
     (let b0 = buf ! i; b1 = buf ! (i + 1); b2 = buf ! (i + 2); b3 = buf ! (i + 3)
      in (b0 = 0xFF \<and> b1 = 0xD8 \<and> b2 = 0xFF \<and> b3 = 0xE1)
       \<or> (b0 = 0xFF \<and> b1 = 0xD8 \<and> b2 = 0xFF \<and> b3 = 0xE0))"

text \<open>
  The \<^verbatim>\<open>while i <= n - 4\<close> loop, with \<open>offsets\<close> as accumulator. Python's
  \<open>n - 4\<close> is negative for a short buffer, so the guard is written \<open>i + 4 \<le> n\<close>.
\<close>

function scan_markers :: "bytes \<Rightarrow> nat \<Rightarrow> nat list \<Rightarrow> nat list" where
  "scan_markers buf i offsets =
     (if i + 4 \<le> length buf then
        (if marker_at buf i
         then scan_markers buf (i + 3 + 1) (offsets @ [i])
         else scan_markers buf (i + 1) offsets)
      else offsets)"
  by pat_completeness auto
termination
  by (relation "measure (\<lambda>(buf, i, offsets). length buf - i)") auto

declare scan_markers.simps [simp del]

definition parse_mpo_for_second_image :: "bytes \<Rightarrow> py_exc + (nat \<times> nat)" where
  "parse_mpo_for_second_image buf =
     (let offsets = scan_markers buf 0 []; n = length buf in
      if length offsets < 2 then Inl ValueError
      else
        let start = offsets ! 1;
            len = (if length offsets \<ge> 3 then (offsets ! 2) - (offsets ! 1) else n - (offsets ! 1))
        in Inr (start, len))"

section \<open>main.py: reading the container\<close>

text \<open>
  The open file \<open>f\<close> is its contents and a position. \<^verbatim>\<open>f.read(n)\<close> at position
  \<open>pos\<close> returns the at most \<open>n\<close> bytes that are left there (nothing once the position
  is at or past the end) and advances the position by the number of bytes returned;
  \<^verbatim>\<open>f.seek(k, 1)\<close> adds \<open>k\<close> to the position, also past the end.
\<close>

definition f_read :: "bytes \<Rightarrow> nat \<Rightarrow> nat \<Rightarrow> bytes" where
  "f_read buf pos n = take n (drop pos buf)"

text \<open>\<^verbatim>\<open>struct.unpack('<I', bs)\<close>: an unsigned little-endian integer.\<close>

definition le_uint :: "bytes \<Rightarrow> nat" where
  "le_uint bs = foldr (\<lambda>b acc. unat b + 256 * acc) bs 0"

text \<open>A \<^verbatim>\<open>bytes\<close> literal of ASCII characters, such as \<^verbatim>\<open>b'RIFF'\<close>.\<close>

definition ascii :: "string \<Rightarrow> bytes" where
  "ascii s = map of_char s"

text \<open>
  \<^verbatim>\<open>bs.decode('ascii', errors='ignore').strip()\<close>: bytes from \<open>0x80\<close> on are dropped,
  then the white space of \<^verbatim>\<open>str.strip\<close> (tab, LF, VT, FF, CR, FS, GS, RS, US, space)
  is removed at both ends. The text is kept as its code units.
\<close>

definition decode_ascii_ignore :: "bytes \<Rightarrow> bytes" where
  "decode_ascii_ignore bs = filter (\<lambda>b. b < 0x80) bs"

definition py_isspace :: "byte \<Rightarrow> bool" where
  "py_isspace b \<longleftrightarrow> b \<in> {0x09, 0x0A, 0x0B, 0x0C, 0x0D, 0x1C, 0x1D, 0x1E, 0x1F, 0x20}"

definition py_strip :: "bytes \<Rightarrow> bytes" where
  "py_strip s = rev (dropWhile py_isspace (rev (dropWhile py_isspace s)))"

definition fourcc_text :: "bytes \<Rightarrow> bytes" where
  "fourcc_text bs = py_strip (decode_ascii_ignore bs)"

text \<open>
  The frame files of one input: \<^verbatim>\<open>temp_folder / f"left_{n:04d}.jpg"\<close> and
  \<^verbatim>\<open>temp_folder / f"right_{n:04d}.jpg"\<close>. The format pads to four digits and never
  truncates, so distinct numbers give distinct names.
\<close>

datatype fname = LeftJpg nat | RightJpg nat

record walk =
  tell :: nat
  left_count :: nat
  right_count :: nat
  files :: "fname \<Rightarrow> bytes option"

text \<open>
  One iteration of the inner \<^verbatim>\<open>while f.tell() < movi_end\<close> loop, from the 8-byte
  \<open>frame_header\<close> that was read at \<open>tell st\<close>: the payload read, the file written for
  \<open>00dc\<close> or \<open>02dc\<close>, and the pad byte skipped when \<open>frame_size\<close> is odd.
\<close>

definition movi_step :: "bytes \<Rightarrow> bytes \<Rightarrow> walk \<Rightarrow> walk" where
  "movi_step buf frame_header st =
     (let frame_id_bytes = take 4 frame_header;
          frame_size = le_uint (drop 4 frame_header);
          frame_id = fourcc_text frame_id_bytes;
          frame_data = f_read buf (tell st + 8) frame_size;
          p = tell st + 8 + length frame_data;
          st1 = (if frame_id = ascii ''00dc''
                 then st\<lparr>left_count := left_count st + 1,
                         files := (files st)(LeftJpg (left_count st) \<mapsto> frame_data)\<rparr>
                 else if frame_id = ascii ''02dc''
                 then st\<lparr>right_count := right_count st + 1,
                         files := (files st)(RightJpg (right_count st) \<mapsto> frame_data)\<rparr>
                 else st)
      in st1\<lparr>tell := (if frame_size mod 2 = 1 then p + 1 else p)\<rparr>)"

function movi_loop :: "bytes \<Rightarrow> nat \<Rightarrow> walk \<Rightarrow> walk" where
  "movi_loop buf movi_end st =
     (if tell st < movi_end then
        (let frame_header = f_read buf (tell st) 8 in
         if length frame_header < 8 then st\<lparr>tell := tell st + length frame_header\<rparr>
         else movi_loop buf movi_end (movi_step buf frame_header st))
      else st)"
  by pat_completeness auto
termination
  by (relation "measure (\<lambda>(buf, movi_end, st). movi_end - tell st)")
     (auto simp: movi_step_def Let_def)

declare movi_loop.simps [simp del]

text \<open>
  One iteration of the outer \<^verbatim>\<open>while True\<close> loop. \<open>Stop\<close> is a \<^verbatim>\<open>break\<close>: a short
  header, or the end of the \<open>movi\<close> list. A \<open>LIST\<close> of another type is entered: only its
  header and type are consumed. Every other chunk is skipped with its pad byte.
\<close>

datatype top_action = Stop walk | Continue walk

definition top_step :: "bytes \<Rightarrow> walk \<Rightarrow> top_action" where
  "top_step buf st =
     (let pos = tell st;
          header = f_read buf pos 8
      in if length header < 8 then Stop (st\<lparr>tell := pos + length header\<rparr>)
         else
           (let chunk_id_bytes = take 4 header;
                chunk_size = le_uint (drop 4 header);
                chunk_id = fourcc_text chunk_id_bytes
            in if chunk_id = ascii ''LIST'' then
                 (let list_type = f_read buf (pos + 8) 4;
                      subtype = fourcc_text list_type;
                      st1 = st\<lparr>tell := pos + 8 + length list_type\<rparr>
                  in if subtype = ascii ''movi''
                     then Stop (movi_loop buf (pos + 8 + chunk_size) st1)
                     else Continue st1)
               else Continue (st\<lparr>tell := pos + 8 + (chunk_size + chunk_size mod 2)\<rparr>)))"

function top_loop :: "bytes \<Rightarrow> walk \<Rightarrow> walk" where
  "top_loop buf st =
     (case top_step buf st of
        Stop st' \<Rightarrow> st'
      | Continue st' \<Rightarrow> top_loop buf st')"
  by pat_completeness auto
termination
proof (relation "measure (\<lambda>(buf, st). length buf - tell st)")
  show "wf (measure (\<lambda>(buf, st). length buf - tell st))"
    by simp
next
  fix buf :: bytes and st st' :: walk
  assume "top_step buf st = Continue st'"
  then have "tell st + 8 \<le> length buf \<and> tell st + 8 \<le> tell st'"
    by (auto simp: top_step_def Let_def f_read_def split: if_splits)
  then have "length buf - tell st' < length buf - tell st"
    by arith
  then show "((buf, st'), (buf, st)) \<in> measure (\<lambda>(buf, st). length buf - tell st)"
    by simp
qed

declare top_loop.simps [simp del]

text \<open>
  The \<^verbatim>\<open>with open(avi_file, 'rb') as f\<close> block, started with the counters at 0 and the
  temporary folder as it is. A header shorter than 12 bytes makes \<^verbatim>\<open>struct.unpack\<close>
  raise; a wrong magic gives \<open>None\<close> (the \<^verbatim>\<open>Skipping ...: Not a valid AVI.\<close> branch).
\<close>

definition read_avi :: "bytes \<Rightarrow> (fname \<Rightarrow> bytes option) \<Rightarrow> py_exc + walk option" where
  "read_avi buf fs =
     (let riff_header = f_read buf 0 12 in
      if length riff_header \<noteq> 12 then Inl StructError
      else
        (let riff_id = take 4 riff_header;
             riff_format = drop 8 riff_header
         in if riff_id \<noteq> ascii ''RIFF'' \<or> riff_format \<noteq> ascii ''AVI ''
            then Inr None
            else Inr (Some (top_loop buf
                   \<lparr>tell = 12, left_count = 0, right_count = 0, files = fs\<rparr>))))"

section \<open>The RIFF layout\<close>

text \<open>
  What a well-formed container is, for stating what the walk extracts from one: a chunk
  is a 4-byte tag, its payload size as a 32-bit little-endian integer, the payload, and
  one pad byte after a payload of odd size; a list is a chunk tagged \<open>LIST\<close>
  (\<open>4C 49 53 54\<close>) whose payload is a 4-byte list type followed by the chunks it holds.
  The layout is written with the bytes themselves: \<open>RIFF\<close> is \<open>52 49 46 46\<close>, \<open>AVI\<close> and a
  space \<open>41 56 49 20\<close>, \<open>movi\<close> \<open>6D 6F 76 69\<close>.
\<close>

definition le32_bytes :: "nat \<Rightarrow> bytes" where
  "le32_bytes n = [of_nat n, of_nat (n div 256), of_nat (n div 65536), of_nat (n div 16777216)]"

datatype riff = Chunk bytes bytes | RList bytes "riff list"

fun encode :: "riff \<Rightarrow> bytes" where
  "encode (Chunk tag payload) =
     tag @ le32_bytes (length payload) @ payload @ (if odd (length payload) then [0] else [])"
| "encode (RList list_type items) =
     [0x4C, 0x49, 0x53, 0x54] @ le32_bytes (4 + length (concat (map encode items)))
       @ list_type @ concat (map encode items)"

text \<open>
  Tags and list types are 4 bytes, sizes fit 32 bits, and a plain chunk is not tagged
  \<open>LIST\<close>.
\<close>

fun wf_riff :: "riff \<Rightarrow> bool" where
  "wf_riff (Chunk tag payload) \<longleftrightarrow>
     length tag = 4 \<and> tag \<noteq> [0x4C, 0x49, 0x53, 0x54] \<and> length payload < 2 ^ 32"
| "wf_riff (RList list_type items) \<longleftrightarrow>
     length list_type = 4 \<and> 4 + length (concat (map encode items)) < 2 ^ 32
     \<and> list_all wf_riff items"

text \<open>No list of type \<open>movi\<close> at any depth: what precedes the movie data.\<close>

fun no_movi :: "riff \<Rightarrow> bool" where
  "no_movi (Chunk tag payload) \<longleftrightarrow> True"
| "no_movi (RList list_type items) \<longleftrightarrow>
     list_type \<noteq> [0x6D, 0x6F, 0x76, 0x69] \<and> list_all no_movi items"

text \<open>
  A sub-chunk of the movie-data list, as tag and payload. Any 4-byte tag is allowed, so
  audio chunks and nested \<open>rec\<close> lists are sub-chunks like the others.
\<close>

type_synonym subchunk = "bytes \<times> bytes"

definition wf_sub :: "subchunk \<Rightarrow> bool" where
  "wf_sub c \<longleftrightarrow> length (fst c) = 4 \<and> length (snd c) < 2 ^ 32"

definition encode_sub :: "subchunk \<Rightarrow> bytes" where
  "encode_sub c = encode (Chunk (fst c) (snd c))"

definition movi_body :: "subchunk list \<Rightarrow> bytes" where
  "movi_body subs = concat (map encode_sub subs)"

text \<open>
  A RIFF/AVI file: the 12-byte header (the walk never looks at its size field), the chunks
  and lists before the movie data, the \<open>movi\<close> list, and whatever follows it (an index).
\<close>

definition avi_file :: "bytes \<Rightarrow> riff list \<Rightarrow> subchunk list \<Rightarrow> bytes \<Rightarrow> bytes" where
  "avi_file riff_size pre subs trailer =
     [0x52, 0x49, 0x46, 0x46] @ riff_size @ [0x41, 0x56, 0x49, 0x20] @ concat (map encode pre)
       @ [0x4C, 0x49, 0x53, 0x54] @ le32_bytes (4 + length (movi_body subs)) @ [0x6D, 0x6F, 0x76, 0x69]
       @ movi_body subs @ trailer"

definition wf_avi :: "bytes \<Rightarrow> riff list \<Rightarrow> subchunk list \<Rightarrow> bool" where
  "wf_avi riff_size pre subs \<longleftrightarrow>
     length riff_size = 4
     \<and> list_all (\<lambda>r. wf_riff r \<and> no_movi r) pre
     \<and> list_all wf_sub subs
     \<and> 4 + length (movi_body subs) < 2 ^ 32"

text \<open>The payloads of the sub-chunks with a given tag, in file order.\<close>

definition payloads_of :: "bytes \<Rightarrow> subchunk list \<Rightarrow> bytes list" where
  "payloads_of tag subs = map snd (filter (\<lambda>c. fst c = tag) subs)"

text \<open>
  What the walk does with one sub-chunk, the position aside: the payload of a chunk
  tagged \<open>00dc\<close> goes to the next left file, that of one tagged \<open>02dc\<close> to the next
  right file, and any other chunk leaves no trace.
\<close>

definition emit :: "walk \<Rightarrow> subchunk \<Rightarrow> walk" where
  "emit st c =
     (if fst c = ascii ''00dc''
      then st\<lparr>left_count := left_count st + 1,
              files := (files st)(LeftJpg (left_count st) \<mapsto> snd c)\<rparr>
      else if fst c = ascii ''02dc''
      then st\<lparr>right_count := right_count st + 1,
              files := (files st)(RightJpg (right_count st) \<mapsto> snd c)\<rparr>
      else st)"

text \<open>
  The outer loop passes over an encoded region \<open>enc\<close> of the buffer when, started at the
  first byte of any occurrence of \<open>enc\<close>, it gives what it gives started right after it.
\<close>

definition walks_over :: "bytes \<Rightarrow> bytes \<Rightarrow> bool" where
  "walks_over buf enc \<longleftrightarrow>
     (\<forall>pre rest st. buf = pre @ enc @ rest \<and> tell st = length pre \<longrightarrow>
        top_loop buf st = top_loop buf (st\<lparr>tell := length pre + length enc\<rparr>))"

section \<open>Images and the side-by-side composite\<close>

text \<open>
  A decoded raster as Pillow holds it in mode \<open>RGB\<close>: its size and the colour at each
  column \<open>x\<close> and row \<open>y\<close>. Only the colours at \<open>x < width\<close> and \<open>y < height\<close> belong to the
  image.
\<close>

type_synonym rgb = "byte \<times> byte \<times> byte"

record pil_image =
  width :: nat
  height :: nat
  pixel :: "nat \<Rightarrow> nat \<Rightarrow> rgb"

text \<open>\<^verbatim>\<open>Image.new("RGB", (w, h))\<close>: a black image.\<close>

definition image_new :: "nat \<Rightarrow> nat \<Rightarrow> pil_image" where
  "image_new w h = \<lparr>width = w, height = h, pixel = (\<lambda>x y. (0, 0, 0))\<rparr>"

text \<open>
  \<^verbatim>\<open>dst.paste(src, (x0, y0))\<close>: the pixels of \<open>src\<close> replace those of \<open>dst\<close> in the rectangle
  of the size of \<open>src\<close> whose upper left corner is \<open>(x0, y0)\<close>, clipped to \<open>dst\<close>.
\<close>

definition paste :: "pil_image \<Rightarrow> pil_image \<Rightarrow> nat \<times> nat \<Rightarrow> pil_image" where
  "paste dst src box =
     (case box of (x0, y0) \<Rightarrow>
        dst\<lparr>pixel := (\<lambda>x y.
              if x0 \<le> x \<and> x < x0 + width src \<and> y0 \<le> y \<and> y < y0 + height src
                 \<and> x < width dst \<and> y < height dst
              then pixel src (x - x0) (y - y0)
              else pixel dst x y)\<rparr>)"

text \<open>
  What \<^verbatim>\<open>make_sbs\<close> takes from outside the repository. \<open>scaled_width w H h\<close> is the value
  of \<^verbatim>\<open>int(round(w * (H / h)))\<close> in Python's floating-point arithmetic, for \<open>h \<noteq> 0\<close>, or
  the exception it raises; \<open>resize im (W, H)\<close> is
  \<^verbatim>\<open>im.resize((W, H), Image.Resampling.LANCZOS)\<close>, which raises for a size it refuses.
\<close>

record pil =
  scaled_width :: "nat \<Rightarrow> int \<Rightarrow> nat \<Rightarrow> py_exc + int"
  resize :: "pil_image \<Rightarrow> int \<times> int \<Rightarrow> py_exc + pil_image"

text \<open>
  \<^verbatim>\<open>scale_to_h(im, H)\<close>, the function nested in \<^verbatim>\<open>make_sbs\<close>. The division by
  \<^verbatim>\<open>im.height\<close> raises when the height is 0.
\<close>

definition scale_to_h :: "pil \<Rightarrow> pil_image \<Rightarrow> int \<Rightarrow> py_exc + pil_image" where
  "scale_to_h P im H =
     (if H \<le> 0 \<or> int (height im) = H then Inr im
      else if height im = 0 then Inl ZeroDivisionError
      else (case scaled_width P (width im) H (height im) of
              Inl e \<Rightarrow> Inl e
            | Inr W \<Rightarrow> resize P im (W, H)))"

text \<open>
  \<^verbatim>\<open>make_sbs(left, right, target_height)\<close>. The target height is \<open>None\<close> or an integer;
  \<^verbatim>\<open>target_height and target_height > 0\<close> holds of an integer that is not 0 and is
  positive.
\<close>

definition make_sbs :: "pil \<Rightarrow> pil_image \<Rightarrow> pil_image \<Rightarrow> int option \<Rightarrow> py_exc + pil_image" where
  "make_sbs P left right target_height =
     (let H = (case target_height of
                 None \<Rightarrow> int (max (height left) (height right))
               | Some t \<Rightarrow> if t \<noteq> 0 \<and> t > 0 then t
                          else int (max (height left) (height right)))
      in case scale_to_h P left H of
           Inl e \<Rightarrow> Inl e
         | Inr L \<Rightarrow>
             (case scale_to_h P right H of
                Inl e \<Rightarrow> Inl e
              | Inr R \<Rightarrow>
                  Inr (paste (paste (image_new (width L + width R) (nat H)) L (0, 0))
                         R (width L, 0))))"

text \<open>
  The composite of \<^verbatim>\<open>main.py\<close> (lines 125 to 130), from the two opened frames: no
  scaling, both frames pasted at the top of a canvas as high as the higher one.
\<close>

definition sbs_img :: "pil_image \<Rightarrow> pil_image \<Rightarrow> pil_image" where
  "sbs_img left_img right_img =
     (let new_width = width left_img + width right_img;
          new_height = max (height left_img) (height right_img)
      in paste (paste (image_new new_width new_height) left_img (0, 0))
           right_img (width left_img, 0))"

section \<open>main.py: the frame rate\<close>

text \<open>
  Text is a list of characters with codes below 256. \<^verbatim>\<open>s.strip()\<close> removes white space
  at both ends; among these characters the white space of Python is tab, LF, VT, FF, CR,
  FS, GS, RS, US, space, NEL (\<open>0x85\<close>) and the no-break space (\<open>0xA0\<close>).
\<close>

definition str_isspace :: "char \<Rightarrow> bool" where
  "str_isspace c \<longleftrightarrow>
     (of_char c :: nat) \<in> {0x09, 0x0A, 0x0B, 0x0C, 0x0D, 0x1C, 0x1D, 0x1E, 0x1F, 0x20, 0x85, 0xA0}"

definition str_strip :: "string \<Rightarrow> string" where
  "str_strip s = rev (dropWhile str_isspace (rev (dropWhile str_isspace s)))"

text \<open>\<^verbatim>\<open>s.split('/')\<close>: the pieces between the slashes, at least one.\<close>

fun split_slash :: "string \<Rightarrow> string list" where
  "split_slash [] = [[]]"
| "split_slash (c # cs) =
     (if c = CHR ''/'' then [] # split_slash cs
      else (case split_slash cs of
              [] \<Rightarrow> [[c]]
            | p # ps \<Rightarrow> (c # p) # ps))"

text \<open>
  \<^verbatim>\<open>int(s)\<close> for text \<open>s\<close>: white space is stripped, then comes an optional sign and
  decimal digits, where single underscores may stand between digits. \<open>None\<close> is the
  \<^verbatim>\<open>ValueError\<close> of any other text.
\<close>

definition is_digit :: "char \<Rightarrow> bool" where
  "is_digit c \<longleftrightarrow> 48 \<le> (of_char c :: nat) \<and> (of_char c :: nat) \<le> 57"

fun digits_ok :: "string \<Rightarrow> bool" where
  "digits_ok [] \<longleftrightarrow> False"
| "digits_ok [c] \<longleftrightarrow> is_digit c"
| "digits_ok (c # d # r) \<longleftrightarrow>
     is_digit c \<and> (if d = CHR ''_'' then digits_ok r else digits_ok (d # r))"

definition digits_value :: "string \<Rightarrow> nat" where
  "digits_value ds = foldl (\<lambda>acc c. 10 * acc + (of_char c - 48)) 0 ds"

definition py_int :: "string \<Rightarrow> int option" where
  "py_int s =
     (let t = str_strip s;
          neg = (t \<noteq> [] \<and> hd t = CHR ''-'');
          ds = (if t \<noteq> [] \<and> (hd t = CHR ''-'' \<or> hd t = CHR ''+'') then tl t else t)
      in if digits_ok ds
         then Some ((if neg then - 1 else 1) * int (digits_value (filter (\<lambda>c. c \<noteq> CHR ''_'') ds)))
         else None)"

text \<open>
  \<^verbatim>\<open>num, denom = map(int, parts)\<close>: the conversions run in order, and anything but two
  parts fails the unpacking, each failure being a \<^verbatim>\<open>ValueError\<close>.
\<close>

definition unpack_two_ints :: "string list \<Rightarrow> py_exc + (int \<times> int)" where
  "unpack_two_ints parts =
     (case parts of
        [a, b] \<Rightarrow>
          (case py_int a of
             None \<Rightarrow> Inl ValueError
           | Some num \<Rightarrow>
               (case py_int b of
                  None \<Rightarrow> Inl ValueError
                | Some denom \<Rightarrow> Inr (num, denom)))
      | _ \<Rightarrow> Inl ValueError)"

text \<open>
  The frame rate is the integer 30, or \<^verbatim>\<open>round(num / denom, 3)\<close>, or \<^verbatim>\<open>float(s)\<close>; the
  two floating-point values are kept as what they are computed from. The division of two
  integers raises \<^verbatim>\<open>OverflowError\<close> when the quotient rounds to no finite double, that is
  from \<open>2\<^sup>1\<^sup>0\<^sup>2\<^sup>4 - 2\<^sup>9\<^sup>7\<^sup>0\<close> on in absolute value. \<^verbatim>\<open>float(s)\<close> is not defined here: \<open>py_float\<close>
  gives its value, \<open>None\<close> for its \<^verbatim>\<open>ValueError\<close>.
\<close>

datatype 'f framerate = Default30 | RoundedQuotient int int | FloatOf 'f

definition truediv_overflows :: "int \<Rightarrow> int \<Rightarrow> bool" where
  "truediv_overflows num denom \<longleftrightarrow> (2 ^ 1024 - 2 ^ 970) * \<bar>denom\<bar> \<le> \<bar>num\<bar>"

definition parse_framerate :: "(string \<Rightarrow> 'f option) \<Rightarrow> string \<Rightarrow> py_exc + 'f framerate" where
  "parse_framerate py_float stdout =
     (let framerate_raw = str_strip stdout in
      if CHR ''/'' \<in> set framerate_raw then
        (case unpack_two_ints (split_slash framerate_raw) of
           Inl e \<Rightarrow> Inl e
         | Inr (num, denom) \<Rightarrow>
             if denom \<noteq> 0
             then (if truediv_overflows num denom then Inl OverflowError
                   else Inr (RoundedQuotient num denom))
             else Inr Default30)
      else if framerate_raw \<noteq> [] then
        (case py_float framerate_raw of
           None \<Rightarrow> Inl ValueError
         | Some x \<Rightarrow> Inr (FloatOf x))
      else Inr Default30)"

section \<open>main.py: pairing, merging and the batch\<close>

text \<open>
  What the loop over the files takes from outside the repository: \<^verbatim>\<open>float\<close> for the
  frame rate, Pillow's decoder (\<^verbatim>\<open>Image.open\<close> with the load that \<^verbatim>\<open>paste\<close> triggers;
  \<open>None\<close> when Pillow raises, which the model reports as \<open>ImageError\<close>) and its JPEG
  encoder (\<^verbatim>\<open>save\<close>, the bytes written or the exception raised).
\<close>

record 'f lib =
  float_of_text :: "string \<Rightarrow> 'f option"
  decode :: "bytes \<Rightarrow> pil_image option"
  jpeg_save :: "pil_image \<Rightarrow> py_exc + bytes"

text \<open>
  One input of the batch: the name of the file, what \<^verbatim>\<open>ffprobe\<close> prints for it, its
  contents, and the frame files that its temporary folder holds before the run.
\<close>

record avi_input =
  avi_name :: string
  probe_stdout :: string
  contents :: bytes
  tmp_files :: "fname \<Rightarrow> bytes option"

text \<open>\<^verbatim>\<open>Image.open(path)\<close> of a frame file of the temporary folder.\<close>

definition open_frame :: "'f lib \<Rightarrow> walk \<Rightarrow> fname \<Rightarrow> py_exc + pil_image" where
  "open_frame L st f =
     (case files st f of
        None \<Rightarrow> Inl FileNotFoundError
      | Some payload \<Rightarrow>
          (case decode L payload of
             None \<Rightarrow> Inl ImageError
           | Some im \<Rightarrow> Inr im))"

text \<open>
  The \<^verbatim>\<open>for idx in range(min_frames)\<close> loop: the files \<^verbatim>\<open>sbs_0000.jpg\<close>,
  \<^verbatim>\<open>sbs_0001.jpg\<close>, ... in the order written, or the first exception.
\<close>

fun merge_frames :: "'f lib \<Rightarrow> walk \<Rightarrow> nat list \<Rightarrow> py_exc + bytes list" where
  "merge_frames L st [] = Inr []"
| "merge_frames L st (idx # rest) =
     (case open_frame L st (LeftJpg idx) of
        Inl e \<Rightarrow> Inl e
      | Inr left_img \<Rightarrow>
          (case open_frame L st (RightJpg idx) of
             Inl e \<Rightarrow> Inl e
           | Inr right_img \<Rightarrow>
               (case jpeg_save L (sbs_img left_img right_img) of
                  Inl e \<Rightarrow> Inl e
                | Inr combined_file \<Rightarrow>
                    (case merge_frames L st rest of
                       Inl e \<Rightarrow> Inl e
                     | Inr others \<Rightarrow> Inr (combined_file # others)))))"

text \<open>
  The lines appended to \<^verbatim>\<open>results\<close>: \<^verbatim>\<open>Skipping ...: Not a valid AVI.\<close>,
  \<^verbatim>\<open>Extraction failed: ...: Left L, Right R\<close>, and the line of a converted file, kept
  with the frames handed to the encoder and the frame rate.
\<close>

datatype 'f line =
    Skipping string
  | ExtractionFailed string nat nat
  | Converted string "bytes list" "'f framerate"

text \<open>
  Lines 111 to 131 and the line of the report: the pairing of the frame files that the
  walk left behind, up to the smaller of the two counters.
\<close>

definition pair_frames :: "'f lib \<Rightarrow> string \<Rightarrow> 'f framerate \<Rightarrow> walk \<Rightarrow> py_exc + 'f line" where
  "pair_frames L name framerate st =
     (let min_frames = min (left_count st) (right_count st) in
      if min_frames = 0
      then Inr (ExtractionFailed name (left_count st) (right_count st))
      else (case merge_frames L st [0..<min_frames] of
              Inl e \<Rightarrow> Inl e
            | Inr frames \<Rightarrow> Inr (Converted name frames framerate)))"

text \<open>
  The body of \<^verbatim>\<open>for avi_file in avi_files\<close>. The calls of \<^verbatim>\<open>ffprobe\<close> and
  \<^verbatim>\<open>ffmpeg\<close> are outside the model; their exit status is not looked at by the code.
\<close>

definition process_avi :: "'f lib \<Rightarrow> avi_input \<Rightarrow> py_exc + 'f line" where
  "process_avi L inp =
     (case parse_framerate (float_of_text L) (probe_stdout inp) of
        Inl e \<Rightarrow> Inl e
      | Inr framerate \<Rightarrow>
          (case read_avi (contents inp) (tmp_files inp) of
             Inl e \<Rightarrow> Inl e
           | Inr None \<Rightarrow> Inr (Skipping (avi_name inp))
           | Inr (Some st) \<Rightarrow> pair_frames L (avi_name inp) framerate st))"

text \<open>The whole loop: an exception in one iteration leaves the loop.\<close>

fun run_files :: "'f lib \<Rightarrow> avi_input list \<Rightarrow> 'f line list \<Rightarrow> py_exc + 'f line list" where
  "run_files L [] results = Inr results"
| "run_files L (inp # rest) results =
     (case process_avi L inp of
        Inl e \<Rightarrow> Inl e
      | Inr entry \<Rightarrow> run_files L rest (results @ [entry]))"

text \<open>
  What the function returns once the list of files is not empty: the joined lines, or
  from the \<^verbatim>\<open>except Exception\<close> of the whole body the single text \<^verbatim>\<open>Error: ...\<close>.
\<close>

datatype 'f status = Report "'f line list" | Error py_exc

definition convert_all :: "'f lib \<Rightarrow> avi_input list \<Rightarrow> 'f status" where
  "convert_all L avi_files =
     (case run_files L avi_files [] of
        Inl e \<Rightarrow> Error e
      | Inr results \<Rightarrow> Report results)"

section \<open>Paths, the file system and the discovery of inputs\<close>

text \<open>
  A path is the list of its components, and its name the last of them. The suffix is
  \<^verbatim>\<open>PurePath.suffix\<close>: with \<open>i\<close> the index of the last dot of the name, the name from
  \<open>i\<close> on when \<open>0 < i < len(name) - 1\<close>, and the empty text otherwise.
\<close>

type_synonym path = "string list"

definition path_name :: "path \<Rightarrow> string" where
  "path_name p = (if p = [] then [] else last p)"

definition rfind_dot :: "string \<Rightarrow> nat option" where
  "rfind_dot name =
     (if CHR ''.'' \<in> set name
      then Some (length name - length (takeWhile (\<lambda>c. c \<noteq> CHR ''.'') (rev name)) - 1)
      else None)"

definition path_suffix :: "path \<Rightarrow> string" where
  "path_suffix p =
     (let name = path_name p in
      case rfind_dot name of
        None \<Rightarrow> []
      | Some i \<Rightarrow> if 0 < i \<and> i < length name - 1 then drop i name else [])"

text \<open>
  \<^verbatim>\<open>s.lower()\<close> on characters with codes below 256: the letters \<open>A\<close> to \<open>Z\<close> and the
  capital letters from \<open>0xC0\<close> to \<open>0xDE\<close>, the multiplication sign \<open>0xD7\<close> apart, move up
  by 32.
\<close>

definition lower_char :: "char \<Rightarrow> char" where
  "lower_char c =
     (let n = (of_char c :: nat) in
      if (65 \<le> n \<and> n \<le> 90) \<or> (192 \<le> n \<and> n \<le> 222 \<and> n \<noteq> 215)
      then char_of (n + 32) else c)"

definition str_lower :: "string \<Rightarrow> string" where
  "str_lower s = map lower_char s"

text \<open>
  The file system as far as the two entry points look at it: what a path is, what a file
  holds, and the listings of a directory, which are taken as the system gives them
  (\<^verbatim>\<open>glob("*.avi")\<close>, \<^verbatim>\<open>iterdir()\<close>, \<^verbatim>\<open>rglob("*")\<close>). For the container pipeline a
  file comes with the output of \<^verbatim>\<open>ffprobe\<close> and with the frame files that its temporary
  folder holds. \<open>as_completed\<close> is the order in which the pool finishes its tasks.
\<close>

datatype kind = Absent | IsFile | IsDir

record world =
  kind_of :: "path \<Rightarrow> kind"
  file_bytes :: "path \<Rightarrow> bytes"
  glob_avi :: "path \<Rightarrow> path list"
  iterdir :: "path \<Rightarrow> path list"
  rglob_all :: "path \<Rightarrow> path list"
  ffprobe :: "path \<Rightarrow> string"
  tmp_folder :: "path \<Rightarrow> fname \<Rightarrow> bytes option"
  as_completed :: "path list \<Rightarrow> path list"

text \<open>
  \<^verbatim>\<open>p.mkdir(parents=True, exist_ok=True)\<close>: nothing to do for a directory, an error
  for a file; a missing path is created under its parent, which is created first when it
  is missing too, and an error when the parent is a file.
\<close>

function mkdir_parents :: "(path \<Rightarrow> kind) \<Rightarrow> path \<Rightarrow> py_exc + (path \<Rightarrow> kind)" where
  "mkdir_parents k p =
     (case k p of
        IsDir \<Rightarrow> Inr k
      | IsFile \<Rightarrow> Inl FileExistsError
      | Absent \<Rightarrow>
          if p = [] then Inl FileNotFoundError
          else (case k (butlast p) of
                  IsDir \<Rightarrow> Inr (k(p := IsDir))
                | IsFile \<Rightarrow> Inl NotADirectoryError
                | Absent \<Rightarrow>
                    (case mkdir_parents k (butlast p) of
                       Inl e \<Rightarrow> Inl e
                     | Inr k' \<Rightarrow> Inr (k'(p := IsDir)))))"
  by pat_completeness auto
termination
  by (relation "measure (\<lambda>(k, p). length p)") auto

declare mkdir_parents.simps [simp del]

subsection \<open>main.py\<close>

text \<open>
  Lines 11 to 21: the output folder is made when nothing is there, then the files are
  looked up, on the file system as it is by then.
\<close>

definition find_avi_files :: "world \<Rightarrow> path \<Rightarrow> path \<Rightarrow> py_exc + ((path \<Rightarrow> kind) \<times> path list)" where
  "find_avi_files W input_path output_path =
     (case (if kind_of W output_path = Absent
            then mkdir_parents (kind_of W) output_path
            else Inr (kind_of W)) of
        Inl e \<Rightarrow> Inl e
      | Inr k \<Rightarrow>
          Inr (k,
            if k input_path = IsFile \<and> str_lower (path_suffix input_path) = ''.avi''
            then [input_path]
            else if k input_path = IsDir then glob_avi W input_path
            else []))"

definition avi_input_of :: "world \<Rightarrow> path \<Rightarrow> avi_input" where
  "avi_input_of W p =
     \<lparr>avi_name = path_name p, probe_stdout = ffprobe W p, contents = file_bytes W p,
      tmp_files = tmp_folder W p\<rparr>"

text \<open>
  The function of the interface: the text it returns, and the file system as the first
  lines leave it (what the conversion of a file writes is not followed).
\<close>

datatype 'f answer = NoAviFound | Finished "'f status"

definition extract_and_create_sbs_with_audio ::
  "'f lib \<Rightarrow> world \<Rightarrow> path \<Rightarrow> path \<Rightarrow> (path \<Rightarrow> kind) \<times> 'f answer" where
  "extract_and_create_sbs_with_audio L W input_video_or_folder output_folder =
     (case find_avi_files W input_video_or_folder output_folder of
        Inl e \<Rightarrow> (kind_of W, Finished (Error e))
      | Inr (k, avi_files) \<Rightarrow>
          if avi_files = [] then (k, NoAviFound)
          else (k, Finished (convert_all L (map (avi_input_of W) avi_files))))"

subsection \<open>main_images.py\<close>

text \<open>
  What the still-image pipeline takes from outside the repository: the JPEG decoder
  (\<open>None\<close> when it raises, reported as \<open>ImageError\<close>), \<^verbatim>\<open>ImageOps.exif_transpose\<close>, the
  operations of \<^verbatim>\<open>make_sbs\<close>, and the JPEG encoder of \<^verbatim>\<open>save\<close>.
\<close>

record still_lib =
  decode_jpeg :: "bytes \<Rightarrow> pil_image option"
  exif_transpose :: "pil_image \<Rightarrow> pil_image"
  pil_ops :: pil
  save_jpeg :: "pil_image \<Rightarrow> py_exc + bytes"

text \<open>
  \<^verbatim>\<open>read_two_frames_unreal_way\<close>: \<^verbatim>\<open>mmap\<close> refuses an empty file; the left image is
  decoded from the whole buffer, the right one from the slice that the marker scan gives.
\<close>

definition read_two_frames_unreal_way ::
  "still_lib \<Rightarrow> bytes \<Rightarrow> bool \<Rightarrow> py_exc + (pil_image \<times> pil_image)" where
  "read_two_frames_unreal_way S mv exif_autorotate =
     (if mv = [] then Inl ValueError
      else (case decode_jpeg S mv of
              None \<Rightarrow> Inl ImageError
            | Some left \<Rightarrow>
                (case parse_mpo_for_second_image mv of
                   Inl e \<Rightarrow> Inl e
                 | Inr (off, cnt) \<Rightarrow>
                     (case decode_jpeg S (take cnt (drop off mv)) of
                        None \<Rightarrow> Inl ImageError
                      | Some right \<Rightarrow>
                          if exif_autorotate
                          then Inr (exif_transpose S left, exif_transpose S right)
                          else Inr (left, right)))))"

text \<open>
  \<^verbatim>\<open>process_one\<close>: every exception of the body becomes a \<^verbatim>\<open>FAIL\<close> line. The \<^verbatim>\<open>OK\<close>
  line is kept with the bytes saved.
\<close>

datatype still_line = OK path bytes | FAIL path py_exc

definition process_one :: "still_lib \<Rightarrow> world \<Rightarrow> bool \<Rightarrow> int option \<Rightarrow> path \<Rightarrow> still_line" where
  "process_one S W exif_autorotate target_height p =
     (case read_two_frames_unreal_way S (file_bytes W p) exif_autorotate of
        Inl e \<Rightarrow> FAIL p e
      | Inr (left, right) \<Rightarrow>
          (case make_sbs (pil_ops S) left right target_height of
             Inl e \<Rightarrow> FAIL p e
           | Inr sbs \<Rightarrow>
               (case save_jpeg S sbs of
                  Inl e \<Rightarrow> FAIL p e
                | Inr saved \<Rightarrow> OK p saved)))"

text \<open>
  \<^verbatim>\<open>mpo_to_sbs\<close>: the text returned, or the exception of \<^verbatim>\<open>mkdir\<close>, which nothing
  catches, and the file system as the first lines leave it.
\<close>

datatype still_answer =
    Unsupported string
  | NoFilesFound
  | InputPathNotFound path
  | Logs "still_line list"

definition recognized :: "path \<Rightarrow> bool" where
  "recognized p \<longleftrightarrow> str_lower (path_suffix p) \<in> set [''.mpo'', ''.jpg'', ''.jpeg'']"

definition mpo_to_sbs ::
  "still_lib \<Rightarrow> world \<Rightarrow> path \<Rightarrow> path \<Rightarrow> bool \<Rightarrow> bool \<Rightarrow> int option \<Rightarrow> int
     \<Rightarrow> (path \<Rightarrow> kind) \<times> (py_exc + still_answer)" where
  "mpo_to_sbs S W inp outdir exif_autorotate recursive target_height workers =
     (case mkdir_parents (kind_of W) outdir of
        Inl e \<Rightarrow> (kind_of W, Inl e)
      | Inr k \<Rightarrow>
          (k,
           if k inp = IsFile then
             (if \<not> recognized inp then Inr (Unsupported (path_name inp))
              else Inr (Logs [process_one S W exif_autorotate target_height inp]))
           else if k inp = IsDir then
             (let it = (if recursive then rglob_all W inp else iterdir W inp);
                  tasks = filter (\<lambda>p. k p = IsFile \<and> recognized p) it
              in if tasks = [] then Inr NoFilesFound
                 else if length tasks = 1 \<or> workers \<le> 1
                 then Inr (Logs (map (process_one S W exif_autorotate target_height) tasks))
                 else Inr (Logs (map (process_one S W exif_autorotate target_height)
                                    (as_completed W tasks))))
           else Inr (InputPathNotFound inp)))"

section \<open>Verification of the marker locator\<close>

lemma marker_atD:
  assumes "marker_at buf i"
  shows "buf ! i = 0xFF" "buf ! (i + 1) = 0xD8" "buf ! (i + 2) = 0xFF"
      "buf ! (i + 3) = 0xE1 \<or> buf ! (i + 3) = 0xE0"
  using assms unfolding marker_at_def Let_def by blast+

lemma marker_no_overlap:
  assumes "marker_at buf i"
  shows "\<not> marker_at buf (i + 1)" "\<not> marker_at buf (i + 2)" "\<not> marker_at buf (i + 3)"
proof -
  note b = marker_atD [OF assms]
  show "\<not> marker_at buf (i + 1)"
  proof
    assume "marker_at buf (i + 1)"
    from marker_atD(1) [OF this] b(2) show False by simp
  qed
  show "\<not> marker_at buf (i + 2)"
  proof
    assume "marker_at buf (i + 2)"
    have "i + 2 + 1 = i + 3" by simp
    with marker_atD(2) [OF \<open>marker_at buf (i + 2)\<close>] have "buf ! (i + 3) = 0xD8"
      by metis
    with b(4) show False by auto
  qed
  show "\<not> marker_at buf (i + 3)"
  proof
    assume "marker_at buf (i + 3)"
    from marker_atD(1) [OF this] b(4) show False by auto
  qed
qed

lemma filter_skip3:
  assumes "marker_at buf i"
  shows "filter (marker_at buf) [i + 1..<m] = filter (marker_at buf) [i + 4..<m]"
proof -
  have "\<And>j. j \<in> set [i + 1..<m] \<Longrightarrow> marker_at buf j \<Longrightarrow> j \<ge> i + 4"
  proof -
    fix j assume "j \<in> set [i + 1..<m]" "marker_at buf j"
    then have "j \<noteq> i + 1" "j \<noteq> i + 2" "j \<noteq> i + 3" "j \<ge> i + 1"
      using marker_no_overlap [OF assms] by auto
    then show "j \<ge> i + 4" by arith
  qed
  then have "filter (marker_at buf) [i + 1..<m] = filter (\<lambda>j. marker_at buf j \<and> j \<ge> i + 4) [i + 1..<m]"
    by (intro filter_cong) auto
  also have "\<dots> = filter (marker_at buf) (filter (\<lambda>j. j \<ge> i + 4) [i + 1..<m])"
    by (simp add: conj_commute)
  also have "filter (\<lambda>j. j \<ge> i + 4) [i + 1..<m] = [i + 4..<m]"
  proof (cases "i + 4 \<le> m")
    case True
    then have "[i + 1..<m] = [i + 1..<i + 4] @ [i + 4..<m]"
      using upt_add_eq_append [of "i + 1" "i + 4" "m - (i + 4)"] by simp
    then show ?thesis by (auto simp: filter_empty_conv)
  next
    case False
    then show ?thesis by (auto simp: filter_empty_conv)
  qed
  finally show ?thesis .
qed

lemma scan_markers_eq:
  "scan_markers buf i acc = acc @ filter (marker_at buf) [i..<length buf - 3]"
proof (induction buf i acc rule: scan_markers.induct)
  case (1 buf i offsets)
  show ?case
  proof (cases "i + 4 \<le> length buf")
    case False
    then show ?thesis by (simp add: scan_markers.simps [of buf i])
  next
    case True
    then have up: "[i..<length buf - 3] = i # [i + 1..<length buf - 3]"
      by (simp add: upt_conv_Cons)
    show ?thesis
    proof (cases "marker_at buf i")
      case m: True
      have e: "i + 3 + 1 = i + 4" by simp
      have "scan_markers buf i offsets = scan_markers buf (i + 3 + 1) (offsets @ [i])"
        using True m by (simp add: scan_markers.simps [of buf i])
      also have "\<dots> = (offsets @ [i]) @ filter (marker_at buf) [i + 4..<length buf - 3]"
        using "1.IH"(1) [OF True m] unfolding e .
      also have "\<dots> = offsets @ filter (marker_at buf) [i..<length buf - 3]"
        unfolding up using m filter_skip3 [OF m, of "length buf - 3"] by simp
      finally show ?thesis .
    next
      case m: False
      have "scan_markers buf i offsets = scan_markers buf (i + 1) offsets"
        using True m by (simp add: scan_markers.simps [of buf i])
      then show ?thesis using "1.IH"(2) [OF True m] m up by simp
    qed
  qed
qed

lemma marker_offsets_ascending:
  "sorted_wrt (<) (filter (marker_at buf) [0..<m])"
  by (rule sorted_wrt_filter) (simp add: sorted_wrt_upt)

lemma take4_drop_eq:
  "take 4 (drop i buf) = [a, b, c, d] \<longleftrightarrow>
     i + 4 \<le> length buf \<and> buf ! i = a \<and> buf ! (i + 1) = b \<and> buf ! (i + 2) = c \<and> buf ! (i + 3) = d"
proof
  assume e: "take 4 (drop i buf) = [a, b, c, d]"
  then have "length (take 4 (drop i buf)) = 4" by simp
  then have l: "i + 4 \<le> length buf" by simp
  have "\<And>k. k < 4 \<Longrightarrow> take 4 (drop i buf) ! k = buf ! (i + k)"
    using l by simp
  from this [of 0] this [of 1] this [of 2] this [of 3] l
  show "i + 4 \<le> length buf \<and> buf ! i = a \<and> buf ! (i + 1) = b \<and> buf ! (i + 2) = c \<and> buf ! (i + 3) = d"
    unfolding e by simp
next
  assume r: "i + 4 \<le> length buf \<and> buf ! i = a \<and> buf ! (i + 1) = b \<and> buf ! (i + 2) = c \<and> buf ! (i + 3) = d"
  show "take 4 (drop i buf) = [a, b, c, d]"
  proof (rule nth_equalityI)
    from r have "min (length buf - i) 4 = 4" by arith
    then show "length (take 4 (drop i buf)) = length [a, b, c, d]" by simp
  next
    fix k assume "k < length (take 4 (drop i buf))"
    then have "k < 4" by simp
    then consider "k = 0" | "k = 1" | "k = 2" | "k = 3" by linarith
    then show "take 4 (drop i buf) ! k = [a, b, c, d] ! k"
      using r by cases simp_all
  qed
qed

lemma marker_at_patterns:
  "(take 4 (drop i buf) = [0xFF, 0xD8, 0xFF, 0xE1] \<or> take 4 (drop i buf) = [0xFF, 0xD8, 0xFF, 0xE0])
     \<longleftrightarrow> i + 4 \<le> length buf \<and> marker_at buf i"
  unfolding take4_drop_eq marker_at_def Let_def by blast

lemma filter_patterns:
  "filter (\<lambda>i. take 4 (drop i buf) = [0xFF, 0xD8, 0xFF, 0xE1]
               \<or> take 4 (drop i buf) = [0xFF, 0xD8, 0xFF, 0xE0]) [0..<length buf]
   = filter (marker_at buf) [0..<length buf - 3]"
proof -
  have s: "[0..<length buf] = [0..<length buf - 3] @ [length buf - 3..<length buf]"
    using upt_add_eq_append [of 0 "length buf - 3" "length buf - (length buf - 3)"] by simp
  have a: "filter (\<lambda>i. i + 4 \<le> length buf \<and> marker_at buf i) [0..<length buf - 3]
      = filter (marker_at buf) [0..<length buf - 3]"
    by (rule filter_cong) auto
  have b: "filter (\<lambda>i. i + 4 \<le> length buf \<and> marker_at buf i) [length buf - 3..<length buf] = []"
    by (auto simp: filter_empty_conv)
  show ?thesis
    unfolding marker_at_patterns by (subst s) (simp only: filter_append a b append_Nil2)
qed

text \<open>
  C3. The marker locator records, in ascending order, exactly the offsets at which the four
  bytes \<open>FF D8 FF E1\<close> or \<open>FF D8 FF E0\<close> occur in the buffer (the skip of 3 extra bytes
  after a match loses nothing, since two occurrences never overlap). The call fails with
  \<open>ValueError\<close> if and only if fewer than two such offsets exist; otherwise it returns the
  second offset as start and, as length, the distance to the third offset when there is
  one, else the distance to the end of the buffer.
\<close>

theorem parse_mpo_for_second_image_correct:
  "(let occ = filter (\<lambda>i. take 4 (drop i buf) = [0xFF, 0xD8, 0xFF, 0xE1]
                         \<or> take 4 (drop i buf) = [0xFF, 0xD8, 0xFF, 0xE0]) [0..<length buf]
    in scan_markers buf 0 [] = occ
    \<and> sorted_wrt (<) occ
    \<and> (parse_mpo_for_second_image buf = Inl ValueError \<longleftrightarrow> length occ < 2)
    \<and> (2 \<le> length occ \<longrightarrow>
         parse_mpo_for_second_image buf =
           Inr (occ ! 1,
                if 3 \<le> length occ then occ ! 2 - occ ! 1
                else length buf - occ ! 1)
         \<and> occ ! 1 < length buf
         \<and> (3 \<le> length occ \<longrightarrow> occ ! 1 < occ ! 2)))"
proof -
  define occ where "occ = filter (\<lambda>i. take 4 (drop i buf) = [0xFF, 0xD8, 0xFF, 0xE1]
                         \<or> take 4 (drop i buf) = [0xFF, 0xD8, 0xFF, 0xE0]) [0..<length buf]"
  have occ: "occ = filter (marker_at buf) [0..<length buf - 3]"
    unfolding occ_def by (rule filter_patterns)
  have eq: "scan_markers buf 0 [] = occ"
    unfolding occ by (simp add: scan_markers_eq)
  have asc: "sorted_wrt (<) occ"
    unfolding occ by (rule marker_offsets_ascending)
  have fail: "parse_mpo_for_second_image buf = Inl ValueError \<longleftrightarrow> length occ < 2"
    by (auto simp: parse_mpo_for_second_image_def Let_def eq)
  have res: "parse_mpo_for_second_image buf =
           Inr (occ ! 1,
                if 3 \<le> length occ then occ ! 2 - occ ! 1
                else length buf - occ ! 1)" if "2 \<le> length occ"
    using that by (simp add: parse_mpo_for_second_image_def Let_def eq)
  have bound: "occ ! 1 < length buf" if "2 \<le> length occ"
  proof -
    from that have "occ ! 1 \<in> set occ" by simp
    then show ?thesis unfolding occ by auto
  qed
  have step: "occ ! 1 < occ ! 2" if "3 \<le> length occ"
    using asc that by (simp add: sorted_wrt_iff_nth_less)
  show ?thesis
    unfolding Let_def occ_def [symmetric]
    using eq asc fail res bound step by blast
qed

theorem parse_mpo_for_second_image_witness:
  "scan_markers [0xFF, 0xD8, 0xFF, 0xE1, 0x01, 0xFF, 0xD8, 0xFF, 0xE0, 0x02, 0x03] 0 [] = [0, 5]
   \<and> parse_mpo_for_second_image
        [0xFF, 0xD8, 0xFF, 0xE1, 0x01, 0xFF, 0xD8, 0xFF, 0xE0, 0x02, 0x03] = Inr (5, 6)"
proof -
  let ?B = "[0xFF, 0xD8, 0xFF, 0xE1, 0x01, 0xFF, 0xD8, 0xFF, 0xE0, 0x02, 0x03] :: bytes"
  let ?occ = "filter (\<lambda>i. take 4 (drop i ?B) = [0xFF, 0xD8, 0xFF, 0xE1]
                         \<or> take 4 (drop i ?B) = [0xFF, 0xD8, 0xFF, 0xE0]) [0..<length ?B]"
  have u: "[0..<length ?B] = [0, 1, 2, 3, 4, 5, 6, 7, 8, 9, 10]"
    by (simp add: upt_rec)
  have o: "?occ = [0, 5]"
    unfolding u by simp
  have "scan_markers ?B 0 [] = ?occ \<and> (2 \<le> length ?occ \<longrightarrow>
      parse_mpo_for_second_image ?B =
        Inr (?occ ! 1,
             if 3 \<le> length ?occ then ?occ ! 2 - ?occ ! 1 else length ?B - ?occ ! 1))"
    using parse_mpo_for_second_image_correct [of ?B] unfolding Let_def by (elim conjE) blast
  then show ?thesis
    unfolding o by simp
qed
lemma tag_bytes:
  "([0x4C, 0x49, 0x53, 0x54] :: bytes) = ascii ''LIST''"
  "([0x6D, 0x6F, 0x76, 0x69] :: bytes) = ascii ''movi''"
  "([0x52, 0x49, 0x46, 0x46] :: bytes) = ascii ''RIFF''"
  "([0x41, 0x56, 0x49, 0x20] :: bytes) = ascii ''AVI ''"
  "([0x30, 0x30, 0x64, 0x63] :: bytes) = ascii ''00dc''"
  "([0x30, 0x32, 0x64, 0x63] :: bytes) = ascii ''02dc''"
  by (simp_all add: ascii_def)

lemma encode_ascii:
  "encode (Chunk tag payload) =
     tag @ le32_bytes (length payload) @ payload @ (if odd (length payload) then [0] else [])"
  "encode (RList list_type items) =
     ascii ''LIST'' @ le32_bytes (4 + length (concat (map encode items)))
       @ list_type @ concat (map encode items)"
  by (simp_all add: tag_bytes)

lemma wf_riff_ascii:
  "wf_riff (Chunk tag payload) \<longleftrightarrow>
     length tag = 4 \<and> tag \<noteq> ascii ''LIST'' \<and> length payload < 2 ^ 32"
  "wf_riff (RList list_type items) \<longleftrightarrow>
     length list_type = 4 \<and> 4 + length (concat (map encode items)) < 2 ^ 32
     \<and> list_all wf_riff items"
  by (simp_all add: tag_bytes)

lemma no_movi_ascii:
  "no_movi (Chunk tag payload) \<longleftrightarrow> True"
  "no_movi (RList list_type items) \<longleftrightarrow>
     list_type \<noteq> ascii ''movi'' \<and> list_all no_movi items"
  by (simp_all add: tag_bytes)

lemma avi_file_ascii:
  "avi_file riff_size pre subs trailer =
     ascii ''RIFF'' @ riff_size @ ascii ''AVI '' @ concat (map encode pre)
       @ ascii ''LIST'' @ le32_bytes (4 + length (movi_body subs)) @ ascii ''movi''
       @ movi_body subs @ trailer"
  by (simp add: avi_file_def tag_bytes)

declare encode.simps [simp del] wf_riff.simps [simp del] no_movi.simps [simp del]
declare encode_ascii [simp] wf_riff_ascii [simp] no_movi_ascii [simp]

section \<open>Verification of the chunk walk\<close>

subsection \<open>Sizes and tags\<close>

lemma le_uint_le32_bytes:
  assumes "n < 2 ^ 32"
  shows "le_uint (le32_bytes n) = n"
proof -
  define q1 where "q1 = n div 256"
  define q2 where "q2 = q1 div 256"
  define q3 where "q3 = q2 div 256"
  have d2: "n div 65536 = q2"
    unfolding q2_def q1_def by (simp add: div_mult2_eq [symmetric])
  have d3: "n div 16777216 = q3"
    unfolding q3_def q2_def q1_def by (simp add: div_mult2_eq [symmetric])
  have "q3 < 256"
    using assms unfolding d3 [symmetric] by (simp add: div_less_iff_less_mult)
  then have m3: "q3 mod 256 = q3" by simp
  have e1: "n = n mod 256 + 256 * q1" unfolding q1_def by simp
  have e2: "q1 = q1 mod 256 + 256 * q2" unfolding q2_def by simp
  have e3: "q2 = q2 mod 256 + 256 * q3" unfolding q3_def by simp
  have u: "\<And>k. unat (of_nat k :: byte) = k mod 256"
    by (simp add: unat_of_nat)
  have "le_uint (le32_bytes n) =
      n mod 256 + 256 * (q1 mod 256 + 256 * (q2 mod 256 + 256 * (q3 mod 256)))"
    unfolding le_uint_def le32_bytes_def d2 d3 q1_def [symmetric] by (simp add: u)
  also have "\<dots> = n mod 256 + 256 * (q1 mod 256 + 256 * q2)"
    unfolding m3 using e3 by simp
  also have "\<dots> = n"
    using e1 e2 by simp
  finally show ?thesis .
qed

lemma length_le32_bytes [simp]: "length (le32_bytes n) = 4"
  by (simp add: le32_bytes_def)

lemma length_dropWhile_same:
  "length (dropWhile P xs) = length xs \<Longrightarrow> dropWhile P xs = xs"
proof (cases xs)
  case Nil
  then show ?thesis by simp
next
  case (Cons x ys)
  assume l: "length (dropWhile P xs) = length xs"
  show ?thesis
  proof (cases "P x")
    case True
    with l Cons have "length (dropWhile P ys) = Suc (length ys)" by simp
    with length_dropWhile_le [of P ys] show ?thesis by simp
  next
    case False
    with Cons show ?thesis by simp
  qed
qed

lemma length_py_strip_le: "length (py_strip s) \<le> length s"
proof -
  have "length (py_strip s) \<le> length (dropWhile py_isspace s)"
    unfolding py_strip_def using length_dropWhile_le [of py_isspace "rev (dropWhile py_isspace s)"]
    by simp
  also have "\<dots> \<le> length s" by (rule length_dropWhile_le)
  finally show ?thesis .
qed

lemma py_strip_same_length:
  assumes "length (py_strip s) = length s"
  shows "py_strip s = s"
proof -
  have a: "length (dropWhile py_isspace (rev (dropWhile py_isspace s))) \<le> length (dropWhile py_isspace s)"
    using length_dropWhile_le [of py_isspace "rev (dropWhile py_isspace s)"] by simp
  have b: "length (dropWhile py_isspace s) \<le> length s"
    by (rule length_dropWhile_le)
  from assms a b have 1: "length (dropWhile py_isspace s) = length s"
    by (simp add: py_strip_def)
  then have 2: "dropWhile py_isspace s = s" by (rule length_dropWhile_same)
  from assms have "length (dropWhile py_isspace (rev s)) = length (rev s)"
    by (simp add: py_strip_def 2)
  then have "dropWhile py_isspace (rev s) = rev s" by (rule length_dropWhile_same)
  then show ?thesis by (simp add: py_strip_def 2)
qed

lemma fourcc_text_same_length:
  assumes "length (fourcc_text t) = length t"
  shows "fourcc_text t = t"
proof -
  have a: "length (decode_ascii_ignore t) \<le> length t"
    by (simp add: decode_ascii_ignore_def)
  have b: "length (fourcc_text t) \<le> length (decode_ascii_ignore t)"
    by (simp add: fourcc_text_def length_py_strip_le)
  from assms a b have 1: "length (decode_ascii_ignore t) = length t" by simp
  then have 2: "decode_ascii_ignore t = t"
    unfolding decode_ascii_ignore_def filter_id_conv
    using length_filter_less [of _ t "\<lambda>b. b < 0x80"] by fastforce
  from assms have "length (py_strip t) = length t" by (simp add: fourcc_text_def 2)
  then show ?thesis by (simp add: fourcc_text_def 2 py_strip_same_length)
qed

lemma fourcc_text_eq_iff:
  assumes "length t = length s" "fourcc_text s = s"
  shows "fourcc_text t = s \<longleftrightarrow> t = s"
  using assms fourcc_text_same_length by metis

lemma fourcc_fixed:
  "fourcc_text (ascii ''00dc'') = ascii ''00dc''"
  "fourcc_text (ascii ''02dc'') = ascii ''02dc''"
  "fourcc_text (ascii ''LIST'') = ascii ''LIST''"
  "fourcc_text (ascii ''movi'') = ascii ''movi''"
  by (simp_all add: fourcc_text_def ascii_def py_strip_def decode_ascii_ignore_def py_isspace_def)

lemma length_tags [simp]:
  "length (ascii ''00dc'') = 4" "length (ascii ''02dc'') = 4"
  "length (ascii ''LIST'') = 4" "length (ascii ''movi'') = 4"
  "length (ascii ''RIFF'') = 4" "length (ascii ''AVI '') = 4"
  by (simp_all add: ascii_def)

subsection \<open>The movie-data loop on encoded sub-chunks\<close>

lemma f_read_at:
  "pos = length pre \<Longrightarrow> n = length xs \<Longrightarrow> f_read (pre @ xs @ rest) pos n = xs"
  by (simp add: f_read_def)

lemma length_encode_sub:
  "length (encode_sub c) = length (fst c) + 4 + length (snd c) + (if odd (length (snd c)) then 1 else 0)"
  by (simp add: encode_sub_def)

lemma movi_step_encoded:
  assumes wf: "wf_sub c"
    and buf: "buf = pre @ encode_sub c @ rest"
    and pos: "tell st = length pre"
  shows "f_read buf (tell st) 8 = fst c @ le32_bytes (length (snd c))"
    and "movi_step buf (fst c @ le32_bytes (length (snd c))) st
         = (emit st c)\<lparr>tell := length pre + length (encode_sub c)\<rparr>"
proof -
  obtain t p where c: "c = (t, p)" by (cases c)
  from wf c have t4: "length t = 4" and p32: "length p < 2 ^ 32"
    by (simp_all add: wf_sub_def)
  let ?pad = "(if odd (length p) then [0] else []) :: bytes"
  let ?hdr = "t @ le32_bytes (length p)"
  have b1: "buf = pre @ ?hdr @ (p @ ?pad @ rest)"
    using buf c by (simp add: encode_sub_def)
  have b2: "buf = (pre @ ?hdr) @ p @ (?pad @ rest)"
    using buf c by (simp add: encode_sub_def)
  show h: "f_read buf (tell st) 8 = fst c @ le32_bytes (length (snd c))"
    unfolding c fst_conv snd_conv
    by (subst b1, rule f_read_at) (simp_all add: pos t4)
  have data: "f_read buf (tell st + 8) (length p) = p"
    by (subst b2, rule f_read_at) (simp_all add: pos t4)
  have sz: "le_uint (drop 4 ?hdr) = length p"
    using t4 p32 by (simp add: le_uint_le32_bytes)
  have id: "take 4 ?hdr = t" using t4 by simp
  have l: "fourcc_text t = ascii ''00dc'' \<longleftrightarrow> t = ascii ''00dc''"
    by (rule fourcc_text_eq_iff) (simp_all add: t4 fourcc_fixed)
  have r: "fourcc_text t = ascii ''02dc'' \<longleftrightarrow> t = ascii ''02dc''"
    by (rule fourcc_text_eq_iff) (simp_all add: t4 fourcc_fixed)
  have odd1: "length p mod 2 = 1 \<longleftrightarrow> odd (length p)"
    by presburger
  show "movi_step buf (fst c @ le32_bytes (length (snd c))) st
         = (emit st c)\<lparr>tell := length pre + length (encode_sub c)\<rparr>"
    unfolding c fst_conv snd_conv movi_step_def Let_def id sz data l r odd1
    by (simp add: emit_def length_encode_sub t4 pos)
qed

lemma movi_loop_encoded:
  assumes "list_all wf_sub subs"
    and "buf = pre @ movi_body subs @ rest"
    and "tell st = length pre"
    and "movi_end = length pre + length (movi_body subs)"
  shows "movi_loop buf movi_end st = (foldl emit st subs)\<lparr>tell := movi_end\<rparr>"
  using assms
proof (induction subs arbitrary: pre st)
  case Nil
  then show ?case by (subst movi_loop.simps) (simp add: movi_body_def)
next
  case (Cons c subs)
  from Cons.prems(1) have wf: "wf_sub c" and wfs: "list_all wf_sub subs" by simp_all
  have body: "movi_body (c # subs) = encode_sub c @ movi_body subs"
    by (simp add: movi_body_def)
  have buf1: "buf = pre @ encode_sub c @ (movi_body subs @ rest)"
    using Cons.prems(2) by (simp add: body)
  note step = movi_step_encoded [OF wf buf1 Cons.prems(3)]
  have pos: "0 < length (encode_sub c)" by (simp add: length_encode_sub)
  then have lt: "tell st < movi_end" using Cons.prems(3,4) by (simp add: body)
  let ?st1 = "(emit st c)\<lparr>tell := length pre + length (encode_sub c)\<rparr>"
  have "movi_loop buf movi_end st = movi_loop buf movi_end ?st1"
    using wf by (subst movi_loop.simps) (simp add: lt step Let_def wf_sub_def)
  also have "\<dots> = (foldl emit ?st1 subs)\<lparr>tell := movi_end\<rparr>"
    by (rule Cons.IH [OF wfs, where pre = "pre @ encode_sub c"])
       (simp_all add: Cons.prems body)
  also have "\<dots> = (foldl emit (emit st c) subs)\<lparr>tell := movi_end\<rparr>"
  proof -
    have "\<And>s k. foldl emit (s\<lparr>tell := k\<rparr>) subs = (foldl emit s subs)\<lparr>tell := k\<rparr>"
      by (induction subs rule: rev_induct) (simp_all add: emit_def)
    then show ?thesis by simp
  qed
  finally show ?case by simp
qed

subsection \<open>Counters and files after a run of sub-chunks\<close>

lemma tags_distinct:
  "ascii ''00dc'' \<noteq> ascii ''02dc''" "ascii ''LIST'' \<noteq> ascii ''movi''"
  by (simp_all add: ascii_def)

lemma foldl_emit_left_count:
  "left_count (foldl emit st subs) = left_count st + length (payloads_of (ascii ''00dc'') subs)"
  by (induction subs arbitrary: st) (simp_all add: payloads_of_def emit_def tags_distinct)

lemma foldl_emit_right_count:
  "right_count (foldl emit st subs) = right_count st + length (payloads_of (ascii ''02dc'') subs)"
  by (induction subs arbitrary: st) (simp_all add: payloads_of_def emit_def tags_distinct)

lemma foldl_emit_left_files:
  "files (foldl emit st subs) (LeftJpg i) =
     (if left_count st \<le> i \<and> i < left_count st + length (payloads_of (ascii ''00dc'') subs)
      then Some (payloads_of (ascii ''00dc'') subs ! (i - left_count st))
      else files st (LeftJpg i))"
proof (induction subs arbitrary: st)
  case Nil
  then show ?case by (auto simp: payloads_of_def)
next
  case (Cons c subs)
  show ?case
  proof (cases "fst c = ascii ''00dc''")
    case True
    then have p: "payloads_of (ascii ''00dc'') (c # subs) = snd c # payloads_of (ascii ''00dc'') subs"
      by (simp add: payloads_of_def)
    have e: "emit st c = st\<lparr>left_count := left_count st + 1,
              files := (files st)(LeftJpg (left_count st) \<mapsto> snd c)\<rparr>"
      using True by (simp add: emit_def)
    show ?thesis
      unfolding foldl_Cons Cons.IH p e
      by (auto simp: nth_Cons' Suc_diff_le)
  next
    case False
    then have p: "payloads_of (ascii ''00dc'') (c # subs) = payloads_of (ascii ''00dc'') subs"
      by (simp add: payloads_of_def)
    have "left_count (emit st c) = left_count st" "files (emit st c) (LeftJpg i) = files st (LeftJpg i)"
      using False by (simp_all add: emit_def)
    then show ?thesis
      unfolding foldl_Cons Cons.IH p by simp
  qed
qed

lemma foldl_emit_right_files:
  "files (foldl emit st subs) (RightJpg i) =
     (if right_count st \<le> i \<and> i < right_count st + length (payloads_of (ascii ''02dc'') subs)
      then Some (payloads_of (ascii ''02dc'') subs ! (i - right_count st))
      else files st (RightJpg i))"
proof (induction subs arbitrary: st)
  case Nil
  then show ?case by (auto simp: payloads_of_def)
next
  case (Cons c subs)
  show ?case
  proof (cases "fst c = ascii ''02dc''")
    case True
    then have p: "payloads_of (ascii ''02dc'') (c # subs) = snd c # payloads_of (ascii ''02dc'') subs"
      by (simp add: payloads_of_def)
    have e: "emit st c = st\<lparr>right_count := right_count st + 1,
              files := (files st)(RightJpg (right_count st) \<mapsto> snd c)\<rparr>"
      using True tags_distinct by (simp add: emit_def)
    show ?thesis
      unfolding foldl_Cons Cons.IH p e
      by (auto simp: nth_Cons' Suc_diff_le)
  next
    case False
    then have p: "payloads_of (ascii ''02dc'') (c # subs) = payloads_of (ascii ''02dc'') subs"
      by (simp add: payloads_of_def)
    have "right_count (emit st c) = right_count st" "files (emit st c) (RightJpg i) = files st (RightJpg i)"
      using False by (simp_all add: emit_def)
    then show ?thesis
      unfolding foldl_Cons Cons.IH p by simp
  qed
qed

subsection \<open>The outer loop on what precedes the movie data\<close>

lemma top_step_chunk:
  assumes "length t = 4" "t \<noteq> ascii ''LIST''" "length p < 2 ^ 32"
    and buf: "buf = pre @ encode (Chunk t p) @ rest"
    and pos: "tell st = length pre"
  shows "top_step buf st = Continue (st\<lparr>tell := length pre + length (encode (Chunk t p))\<rparr>)"
proof -
  let ?pad = "(if odd (length p) then [0] else []) :: bytes"
  let ?hdr = "t @ le32_bytes (length p)"
  have b1: "buf = pre @ ?hdr @ (p @ ?pad @ rest)"
    using buf by simp
  have h: "f_read buf (tell st) 8 = ?hdr"
    by (subst b1, rule f_read_at) (simp_all add: pos assms(1))
  have sz: "le_uint (drop 4 ?hdr) = length p"
    using assms(1,3) by (simp add: le_uint_le32_bytes)
  have id: "take 4 ?hdr = t" using assms(1) by simp
  have l: "fourcc_text t \<noteq> ascii ''LIST''"
    using fourcc_text_eq_iff [of t "ascii ''LIST''"] assms(1,2) by (simp add: fourcc_fixed)
  have "length p + length p mod 2 = length p + (if odd (length p) then 1 else 0)"
    by presburger
  then show ?thesis
    unfolding top_step_def Let_def h id sz
    using l assms(1) pos by simp
qed

lemma top_step_list:
  assumes "length lt = 4" "lt \<noteq> ascii ''movi''"
    and buf: "buf = pre @ ascii ''LIST'' @ sz @ lt @ rest"
    and sz: "length sz = 4"
    and pos: "tell st = length pre"
  shows "top_step buf st = Continue (st\<lparr>tell := length pre + 12\<rparr>)"
proof -
  let ?hdr = "ascii ''LIST'' @ sz"
  have b1: "buf = pre @ ?hdr @ (lt @ rest)"
    using buf by simp
  have b2: "buf = (pre @ ?hdr) @ lt @ rest"
    using buf by simp
  have h: "f_read buf (tell st) 8 = ?hdr"
    by (subst b1, rule f_read_at) (simp_all add: pos sz)
  have ty: "f_read buf (tell st + 8) 4 = lt"
    by (subst b2, rule f_read_at) (simp_all add: pos sz assms(1))
  have id: "take 4 ?hdr = ascii ''LIST''" by simp
  have l: "fourcc_text lt \<noteq> ascii ''movi''"
    using fourcc_text_eq_iff [of lt "ascii ''movi''"] assms(1,2) by (simp add: fourcc_fixed)
  show ?thesis
    unfolding top_step_def Let_def h id ty
    using l assms(1) sz by (simp add: fourcc_fixed pos)
qed

lemma top_step_movi:
  assumes buf: "buf = pre @ ascii ''LIST'' @ sz @ ascii ''movi'' @ rest"
    and sz: "length sz = 4"
    and pos: "tell st = length pre"
  shows "top_step buf st
       = Stop (movi_loop buf (length pre + 8 + le_uint sz) (st\<lparr>tell := length pre + 12\<rparr>))"
proof -
  let ?hdr = "ascii ''LIST'' @ sz"
  have b1: "buf = pre @ ?hdr @ (ascii ''movi'' @ rest)"
    using buf by simp
  have b2: "buf = (pre @ ?hdr) @ ascii ''movi'' @ rest"
    using buf by simp
  have h: "f_read buf (tell st) 8 = ?hdr"
    by (subst b1, rule f_read_at) (simp_all add: pos sz)
  have ty: "f_read buf (tell st + 8) 4 = ascii ''movi''"
    by (subst b2, rule f_read_at) (simp_all add: pos sz)
  have id: "take 4 ?hdr = ascii ''LIST''" "drop 4 ?hdr = sz" by simp_all
  show ?thesis
    unfolding top_step_def Let_def h id ty
    using sz by (simp add: fourcc_fixed pos add.commute)
qed

lemma walks_over_items:
  assumes "\<And>r. r \<in> set items \<Longrightarrow> walks_over buf (encode r)"
  shows "walks_over buf (concat (map encode items))"
  using assms
proof (induction items)
  case Nil
  show ?case
    unfolding walks_over_def
  proof (intro allI impI, elim conjE)
    fix pre rest :: bytes and st :: walk
    assume "tell st = length pre"
    then have "st\<lparr>tell := length pre + length (concat (map encode []))\<rparr> = st"
      by simp
    then show "top_loop buf st
        = top_loop buf (st\<lparr>tell := length pre + length (concat (map encode []))\<rparr>)"
      by simp
  qed
next
  case (Cons r items)
  have r: "walks_over buf (encode r)" using Cons.prems by simp
  have rs: "walks_over buf (concat (map encode items))"
    using Cons.IH Cons.prems by simp
  show ?case
    unfolding walks_over_def
  proof (intro allI impI, elim conjE)
    fix pre rest :: bytes and st :: walk
    assume buf: "buf = pre @ concat (map encode (r # items)) @ rest"
      and pos: "tell st = length pre"
    let ?more = "concat (map encode items)"
    have b1: "buf = pre @ encode r @ (?more @ rest)" using buf by simp
    have b2: "buf = (pre @ encode r) @ ?more @ rest" using buf by simp
    let ?st1 = "st\<lparr>tell := length pre + length (encode r)\<rparr>"
    have "top_loop buf st = top_loop buf ?st1"
      using r b1 pos unfolding walks_over_def by blast
    also have "\<dots> = top_loop buf (?st1\<lparr>tell := length (pre @ encode r) + length ?more\<rparr>)"
    proof -
      have "tell ?st1 = length (pre @ encode r)" by simp
      with rs b2 show ?thesis unfolding walks_over_def by blast
    qed
    finally show "top_loop buf st =
        top_loop buf (st\<lparr>tell := length pre + length (concat (map encode (r # items)))\<rparr>)"
      by (simp add: add.assoc)
  qed
qed

lemma walks_over_riff:
  "wf_riff r \<Longrightarrow> no_movi r \<Longrightarrow> walks_over buf (encode r)"
proof (induction r)
  case (Chunk t p)
  show ?case
    unfolding walks_over_def
  proof (intro allI impI, elim conjE)
    fix pre rest :: bytes and st :: walk
    assume buf: "buf = pre @ encode (Chunk t p) @ rest" and pos: "tell st = length pre"
    from Chunk.prems have "length t = 4" "t \<noteq> ascii ''LIST''" "length p < 2 ^ 32"
      by simp_all
    from top_step_chunk [OF this buf pos]
    show "top_loop buf st = top_loop buf (st\<lparr>tell := length pre + length (encode (Chunk t p))\<rparr>)"
      by (subst top_loop.simps) simp
  qed
next
  case (RList lt items)
  from RList.prems have lt: "length lt = 4" "lt \<noteq> ascii ''movi''"
    and wfs: "list_all wf_riff items" and nms: "list_all no_movi items"
    by simp_all
  have "\<And>r. r \<in> set items \<Longrightarrow> walks_over buf (encode r)"
    using RList.IH wfs nms by (simp add: list_all_iff)
  then have body: "walks_over buf (concat (map encode items))"
    by (rule walks_over_items)
  let ?body = "concat (map encode items)"
  let ?sz = "le32_bytes (4 + length ?body)"
  show ?case
    unfolding walks_over_def
  proof (intro allI impI, elim conjE)
    fix pre rest :: bytes and st :: walk
    assume buf: "buf = pre @ encode (RList lt items) @ rest" and pos: "tell st = length pre"
    have b1: "buf = pre @ ascii ''LIST'' @ ?sz @ lt @ (?body @ rest)"
      using buf by simp
    have b2: "buf = (pre @ ascii ''LIST'' @ ?sz @ lt) @ ?body @ rest"
      using buf by simp
    let ?st1 = "st\<lparr>tell := length pre + 12\<rparr>"
    have "top_step buf st = Continue ?st1"
      by (rule top_step_list [OF lt b1 _ pos]) simp
    then have "top_loop buf st = top_loop buf ?st1"
      by (subst top_loop.simps) simp
    also have "\<dots> = top_loop buf (?st1\<lparr>tell := length (pre @ ascii ''LIST'' @ ?sz @ lt) + length ?body\<rparr>)"
    proof -
      have "tell ?st1 = length (pre @ ascii ''LIST'' @ ?sz @ lt)"
        using lt by simp
      with body b2 show ?thesis unfolding walks_over_def by blast
    qed
    finally show "top_loop buf st = top_loop buf (st\<lparr>tell := length pre + length (encode (RList lt items))\<rparr>)"
      using lt by (simp add: add.assoc)
  qed
qed

subsection \<open>The whole walk\<close>

lemma read_avi_well_formed:
  assumes wf: "wf_avi riff_size pre subs"
  shows "read_avi (avi_file riff_size pre subs trailer) fs =
     Inr (Some ((foldl emit \<lparr>tell = 12, left_count = 0, right_count = 0, files = fs\<rparr> subs)
                 \<lparr>tell := 24 + length (concat (map encode pre)) + length (movi_body subs)\<rparr>))"
proof -
  let ?buf = "avi_file riff_size pre subs trailer"
  let ?hdr = "ascii ''RIFF'' @ riff_size @ ascii ''AVI ''"
  let ?P = "concat (map encode pre)"
  let ?sz = "le32_bytes (4 + length (movi_body subs))"
  let ?st0 = "\<lparr>tell = 12, left_count = 0, right_count = 0, files = fs\<rparr>"
  from wf have rs: "length riff_size = 4"
    and wfp: "list_all (\<lambda>r. wf_riff r \<and> no_movi r) pre"
    and wfs: "list_all wf_sub subs"
    and sz: "4 + length (movi_body subs) < 2 ^ 32"
    by (simp_all add: wf_avi_def)
  have lh: "length ?hdr = 12" using rs by simp
  have b0: "?buf = [] @ ?hdr @ (?P @ ascii ''LIST'' @ ?sz @ ascii ''movi'' @ movi_body subs @ trailer)"
    by (simp add: avi_file_ascii)
  have h: "f_read ?buf 0 12 = ?hdr"
    by (subst b0, rule f_read_at) (simp_all add: rs)
  have id: "take 4 ?hdr = ascii ''RIFF''" "drop 8 ?hdr = ascii ''AVI ''"
    using rs by simp_all
  have r1: "read_avi ?buf fs = Inr (Some (top_loop ?buf ?st0))"
    unfolding read_avi_def Let_def h id using lh by simp
  have "\<And>r. r \<in> set pre \<Longrightarrow> walks_over ?buf (encode r)"
    using wfp by (simp add: list_all_iff walks_over_riff)
  then have wo: "walks_over ?buf ?P"
    by (rule walks_over_items)
  have b1: "?buf = ?hdr @ ?P @ (ascii ''LIST'' @ ?sz @ ascii ''movi'' @ movi_body subs @ trailer)"
    by (simp add: avi_file_ascii)
  let ?st1 = "?st0\<lparr>tell := length ?hdr + length ?P\<rparr>"
  have "tell ?st0 = length ?hdr" using lh by simp
  with wo b1 have r2: "top_loop ?buf ?st0 = top_loop ?buf ?st1"
    unfolding walks_over_def by blast
  have b2: "?buf = (?hdr @ ?P) @ ascii ''LIST'' @ ?sz @ ascii ''movi'' @ (movi_body subs @ trailer)"
    by (simp add: avi_file_ascii)
  let ?st2 = "?st1\<lparr>tell := length (?hdr @ ?P) + 12\<rparr>"
  have "top_step ?buf ?st1 = Stop (movi_loop ?buf (length (?hdr @ ?P) + 8 + le_uint ?sz) ?st2)"
    by (rule top_step_movi [OF b2]) simp_all
  then have r3: "top_loop ?buf ?st1 = movi_loop ?buf (length (?hdr @ ?P) + 8 + le_uint ?sz) ?st2"
    by (subst top_loop.simps) simp
  have b3: "?buf = (?hdr @ ?P @ ascii ''LIST'' @ ?sz @ ascii ''movi'') @ movi_body subs @ trailer"
    by (simp add: avi_file_ascii)
  have r4: "movi_loop ?buf (length (?hdr @ ?P) + 8 + le_uint ?sz) ?st2
      = (foldl emit ?st2 subs)\<lparr>tell := length (?hdr @ ?P) + 8 + le_uint ?sz\<rparr>"
    by (rule movi_loop_encoded [OF wfs b3]) (simp_all add: rs le_uint_le32_bytes [OF sz])
  have tell_irrelevant: "\<And>s k j. (foldl emit (s\<lparr>tell := k\<rparr>) subs)\<lparr>tell := j\<rparr> = (foldl emit s subs)\<lparr>tell := j\<rparr>"
  proof -
    have "\<And>s k. foldl emit (s\<lparr>tell := k\<rparr>) subs = (foldl emit s subs)\<lparr>tell := k\<rparr>"
      by (induction subs rule: rev_induct) (simp_all add: emit_def)
    then show "\<And>s k j. (foldl emit (s\<lparr>tell := k\<rparr>) subs)\<lparr>tell := j\<rparr> = (foldl emit s subs)\<lparr>tell := j\<rparr>"
      by simp
  qed
  have e: "length (?hdr @ ?P) + 8 + le_uint ?sz = 24 + length ?P + length (movi_body subs)"
    using rs by (simp add: le_uint_le32_bytes [OF sz])
  have "top_loop ?buf ?st0
      = (foldl emit ?st2 subs)\<lparr>tell := length (?hdr @ ?P) + 8 + le_uint ?sz\<rparr>"
    by (simp only: r2 r3 r4)
  also have "\<dots> = (foldl emit ?st0 subs)\<lparr>tell := 24 + length ?P + length (movi_body subs)\<rparr>"
    unfolding e by (simp only: tell_irrelevant)
  finally show ?thesis
    unfolding r1 by simp
qed

lemma declared_size:
  assumes "wf_sub c"
  shows "le_uint (take 4 (drop 4 (encode_sub c))) = length (snd c)"
  using assms by (simp add: wf_sub_def encode_sub_def le_uint_le32_bytes)

text \<open>
  C1. From a well-formed RIFF/AVI buffer whose movie-data list holds \<open>L\<close> sub-chunks tagged
  \<open>00dc\<close> and \<open>R\<close> tagged \<open>02dc\<close>, in any order and among any other sub-chunks, the walk
  returns with the left counter at \<open>L\<close> and the right counter at \<open>R\<close>; left file \<open>i\<close> holds
  the payload of the \<open>i\<close>-th \<open>00dc\<close> sub-chunk in file order and right file \<open>i\<close> that of
  the \<open>i\<close>-th \<open>02dc\<close> sub-chunk, each payload having the size its header declares, and no
  other file is written.
\<close>

theorem chunk_walk_emits_all:
  assumes "wf_avi riff_size pre subs"
  shows "\<exists>st. read_avi (avi_file riff_size pre subs trailer) fs = Inr (Some st)
    \<and> left_count st = length (payloads_of [0x30, 0x30, 0x64, 0x63] subs)
    \<and> right_count st = length (payloads_of [0x30, 0x32, 0x64, 0x63] subs)
    \<and> (\<forall>i < left_count st. files st (LeftJpg i) = Some (payloads_of [0x30, 0x30, 0x64, 0x63] subs ! i))
    \<and> (\<forall>i < right_count st. files st (RightJpg i) = Some (payloads_of [0x30, 0x32, 0x64, 0x63] subs ! i))
    \<and> (\<forall>i \<ge> left_count st. files st (LeftJpg i) = fs (LeftJpg i))
    \<and> (\<forall>i \<ge> right_count st. files st (RightJpg i) = fs (RightJpg i))
    \<and> (\<forall>c \<in> set subs. le_uint (take 4 (drop 4 (encode_sub c))) = length (snd c))"
proof -
  let ?st0 = "\<lparr>tell = 12, left_count = 0, right_count = 0, files = fs\<rparr>"
  let ?st = "(foldl emit ?st0 subs)
      \<lparr>tell := 24 + length (concat (map encode pre)) + length (movi_body subs)\<rparr>"
  have r: "read_avi (avi_file riff_size pre subs trailer) fs = Inr (Some ?st)"
    by (rule read_avi_well_formed [OF assms])
  have l: "left_count ?st = length (payloads_of [0x30, 0x30, 0x64, 0x63] subs)"
    by (simp add: foldl_emit_left_count tag_bytes)
  have rc: "right_count ?st = length (payloads_of [0x30, 0x32, 0x64, 0x63] subs)"
    by (simp add: foldl_emit_right_count tag_bytes)
  have lf: "\<And>i. files ?st (LeftJpg i) =
      (if i < length (payloads_of [0x30, 0x30, 0x64, 0x63] subs)
       then Some (payloads_of [0x30, 0x30, 0x64, 0x63] subs ! i) else fs (LeftJpg i))"
    by (simp add: foldl_emit_left_files tag_bytes)
  have rf: "\<And>i. files ?st (RightJpg i) =
      (if i < length (payloads_of [0x30, 0x32, 0x64, 0x63] subs)
       then Some (payloads_of [0x30, 0x32, 0x64, 0x63] subs ! i) else fs (RightJpg i))"
    by (simp add: foldl_emit_right_files tag_bytes)
  have d: "\<forall>c \<in> set subs. le_uint (take 4 (drop 4 (encode_sub c))) = length (snd c)"
    using assms by (simp add: wf_avi_def list_all_iff declared_size)
  show ?thesis
    apply (rule exI [of _ ?st])
    apply (intro conjI)
    subgoal by (rule r)
    subgoal by (rule l)
    subgoal by (rule rc)
    subgoal unfolding l lf by simp
    subgoal unfolding rc rf by simp
    subgoal unfolding l lf by simp
    subgoal unfolding rc rf by simp
    subgoal by (rule d)
    done
qed

theorem chunk_walk_emits_all_witness:
  "wf_avi [0, 0, 0, 0] [Chunk (ascii ''JUNK'') [7]]
       [(ascii ''02dc'', [4, 5]), (ascii ''01wb'', [9]), (ascii ''00dc'', [1, 2, 3]),
        (ascii ''02dc'', [6])]
   \<and> (\<exists>st. read_avi (avi_file [0, 0, 0, 0] [Chunk (ascii ''JUNK'') [7]]
        [(ascii ''02dc'', [4, 5]), (ascii ''01wb'', [9]), (ascii ''00dc'', [1, 2, 3]),
         (ascii ''02dc'', [6])] [8, 8]) Map.empty = Inr (Some st)
      \<and> left_count st = 1 \<and> right_count st = 2
      \<and> files st (LeftJpg 0) = Some [1, 2, 3]
      \<and> files st (RightJpg 0) = Some [4, 5]
      \<and> files st (RightJpg 1) = Some [6])"
proof -
  let ?subs = "[(ascii ''02dc'', [4, 5]), (ascii ''01wb'', [9]), (ascii ''00dc'', [1, 2, 3]),
        (ascii ''02dc'', [6])] :: subchunk list"
  have wf: "wf_avi [0, 0, 0, 0] [Chunk (ascii ''JUNK'') [7]] ?subs"
    by (simp add: wf_avi_def wf_sub_def movi_body_def encode_sub_def ascii_def)
  have pl: "payloads_of [0x30, 0x30, 0x64, 0x63] ?subs = [[1, 2, 3]]"
    by (simp add: payloads_of_def ascii_def)
  have pr: "payloads_of [0x30, 0x32, 0x64, 0x63] ?subs = [[4, 5], [6]]"
    by (simp add: payloads_of_def ascii_def)
  from chunk_walk_emits_all [OF wf, of "[8, 8]" Map.empty]
  obtain st where st: "read_avi (avi_file [0, 0, 0, 0] [Chunk (ascii ''JUNK'') [7]] ?subs [8, 8]) Map.empty = Inr (Some st)"
    "left_count st = 1" "right_count st = 2"
    "\<forall>i < left_count st. files st (LeftJpg i) = Some (payloads_of [0x30, 0x30, 0x64, 0x63] ?subs ! i)"
    "\<forall>i < right_count st. files st (RightJpg i) = Some (payloads_of [0x30, 0x32, 0x64, 0x63] ?subs ! i)"
    unfolding pl pr by auto
  from st(4) st(2) have "files st (LeftJpg 0) = Some [1, 2, 3]" unfolding pl by simp
  moreover from st(5) st(3) have "files st (RightJpg 0) = Some [4, 5]" "files st (RightJpg 1) = Some [6]"
    unfolding pr by simp_all
  ultimately show ?thesis using wf st(1,2,3) by blast
qed

subsection \<open>The pad byte\<close>






section \<open>Verification of the composite\<close>

lemma scale_to_h_same: "int (height im) = H \<Longrightarrow> scale_to_h P im H = Inr im"
  by (simp add: scale_to_h_def)

text \<open>
  C5. Two images of the same size \<open>W\<close> by \<open>H\<close>, composed with no target height (\<open>None\<close>, 0 or
  a negative number): \<^verbatim>\<open>make_sbs\<close> returns an image of size \<open>2W\<close> by \<open>H\<close> whose pixel at
  \<open>(x, y)\<close> is that of the left image and whose pixel at \<open>(W + x, y)\<close> is that of the right
  image, for all \<open>x < W\<close> and \<open>y < H\<close>; the composite of \<^verbatim>\<open>main.py\<close> is the same image.
  Nothing is resampled: the result is the same whatever \<^verbatim>\<open>resize\<close> and the width
  computation would do, also when both would raise.
\<close>

theorem equal_size_composite_lossless:
  assumes l: "width l = W" "height l = H"
    and r: "width r = W" "height r = H"
    and th: "th = None \<or> (\<exists>t. th = Some t \<and> t \<le> 0)"
  shows "\<exists>out. make_sbs P l r th = Inr out \<and> sbs_img l r = out
     \<and> width out = 2 * W \<and> height out = H
     \<and> (\<forall>x < W. \<forall>y < H. pixel out x y = pixel l x y \<and> pixel out (W + x) y = pixel r x y)"
proof -
  let ?out = "paste (paste (image_new (W + W) H) l (0, 0)) r (W, 0)"
  have Hd: "(case th of None \<Rightarrow> int (max (height l) (height r))
               | Some t \<Rightarrow> if t \<noteq> 0 \<and> t > 0 then t else int (max (height l) (height r))) = int H"
    using th l r by (auto split: option.splits)
  have m: "make_sbs P l r th = Inr ?out"
    unfolding make_sbs_def Hd Let_def
    using l r by (simp add: scale_to_h_same)
  have s: "sbs_img l r = ?out"
    using l r by (simp add: sbs_img_def Let_def)
  have px: "\<forall>x < W. \<forall>y < H. pixel ?out x y = pixel l x y \<and> pixel ?out (W + x) y = pixel r x y"
    using l r by (simp add: paste_def image_new_def)
  show ?thesis
    using m s px by (simp add: paste_def image_new_def)
qed

theorem equal_size_composite_lossless_witness:
  "\<exists>out. make_sbs \<lparr>scaled_width = (\<lambda>w H h. Inl ValueError), resize = (\<lambda>im sz. Inl ValueError)\<rparr>
       \<lparr>width = 1, height = 1, pixel = (\<lambda>x y. (1, 2, 3))\<rparr>
       \<lparr>width = 1, height = 1, pixel = (\<lambda>x y. (4, 5, 6))\<rparr> (Some 0) = Inr out
     \<and> width out = 2 \<and> height out = 1
     \<and> pixel out 0 0 = (1, 2, 3) \<and> pixel out 1 0 = (4, 5, 6)"
proof -
  let ?P = "\<lparr>scaled_width = (\<lambda>w H h. Inl ValueError), resize = (\<lambda>im sz. Inl ValueError)\<rparr>"
  let ?l = "\<lparr>width = 1, height = 1, pixel = (\<lambda>x y. (1, 2, 3))\<rparr> :: pil_image"
  let ?r = "\<lparr>width = 1, height = 1, pixel = (\<lambda>x y. (4, 5, 6))\<rparr> :: pil_image"
  have "width ?l = 1" "height ?l = 1" "width ?r = 1" "height ?r = 1"
    "Some (0::int) = None \<or> (\<exists>t. Some (0::int) = Some t \<and> t \<le> 0)"
    by simp_all
  from equal_size_composite_lossless [OF this, of ?P]
  obtain out where o: "make_sbs ?P ?l ?r (Some 0) = Inr out" "width out = 2 * 1" "height out = 1"
    "\<forall>x < 1. \<forall>y < 1. pixel out x y = pixel ?l x y \<and> pixel out (1 + x) y = pixel ?r x y"
    by blast
  from o(4) have "pixel out 0 0 = (1, 2, 3) \<and> pixel out 1 0 = (4, 5, 6)" by simp
  with o(1,2,3) show ?thesis by auto
qed






section \<open>Verification of the frame rate\<close>








lemma str_strip_plain:
  "s \<noteq> [] \<Longrightarrow> \<not> str_isspace (hd s) \<Longrightarrow> \<not> str_isspace (last s) \<Longrightarrow> str_strip s = s"
proof -
  assume a: "s \<noteq> []" "\<not> str_isspace (hd s)" "\<not> str_isspace (last s)"
  then have 1: "dropWhile str_isspace s = s" by (cases s) simp_all
  from a have "rev s \<noteq> []" "\<not> str_isspace (hd (rev s))" by (simp_all add: hd_rev)
  then have 2: "dropWhile str_isspace (rev s) = rev s" by (cases "rev s") simp_all
  show ?thesis unfolding str_strip_def 1 2 by simp
qed




section \<open>Verification of the pairing\<close>

lemma merge_frames_Inr:
  "merge_frames L st idxs = Inr frames \<longleftrightarrow>
     length frames = length idxs
     \<and> (\<forall>k < length idxs. \<exists>l r.
           open_frame L st (LeftJpg (idxs ! k)) = Inr l
         \<and> open_frame L st (RightJpg (idxs ! k)) = Inr r
         \<and> jpeg_save L (sbs_img l r) = Inr (frames ! k))"
proof (induction idxs arbitrary: frames)
  case Nil
  then show ?case by auto
next
  case (Cons idx rest)
  show ?case
  proof (cases frames)
    case Nil
    then show ?thesis by (auto split: sum.splits)
  next
    case (Cons f fs)
    have "merge_frames L st (idx # rest) = Inr (f # fs) \<longleftrightarrow>
        (\<exists>l r. open_frame L st (LeftJpg idx) = Inr l \<and> open_frame L st (RightJpg idx) = Inr r
           \<and> jpeg_save L (sbs_img l r) = Inr f) \<and> merge_frames L st rest = Inr fs"
      by (auto split: sum.splits)
    also have "\<dots> \<longleftrightarrow>
        (\<exists>l r. open_frame L st (LeftJpg idx) = Inr l \<and> open_frame L st (RightJpg idx) = Inr r
           \<and> jpeg_save L (sbs_img l r) = Inr f)
        \<and> length fs = length rest
        \<and> (\<forall>k < length rest. \<exists>l r.
           open_frame L st (LeftJpg (rest ! k)) = Inr l
         \<and> open_frame L st (RightJpg (rest ! k)) = Inr r
         \<and> jpeg_save L (sbs_img l r) = Inr (fs ! k))"
      unfolding Cons.IH ..
    also have "\<dots> \<longleftrightarrow> length (f # fs) = length (idx # rest)
     \<and> (\<forall>k < length (idx # rest). \<exists>l r.
           open_frame L st (LeftJpg ((idx # rest) ! k)) = Inr l
         \<and> open_frame L st (RightJpg ((idx # rest) ! k)) = Inr r
         \<and> jpeg_save L (sbs_img l r) = Inr ((f # fs) ! k))"
      by (auto simp: less_Suc_eq_0_disj)
    finally show ?thesis unfolding Cons .
  qed
qed

lemma open_frame_Inr:
  "files st f = Some payload \<Longrightarrow> open_frame L st f = Inr im \<longleftrightarrow> decode L payload = Some im"
  by (auto simp: open_frame_def split: option.splits)

text \<open>
  C2. The walk has left \<open>L\<close> left and \<open>R\<close> right payloads in the frame files, in order.
  The pairing step gives the line \<^verbatim>\<open>Extraction failed\<close> with both counts if and only if
  \<open>min L R = 0\<close>. Otherwise the only line it can give is the one of a converted file, and it
  gives it with a list of frames exactly when the list has \<open>min L R\<close> frames and frame \<open>i\<close>
  is the saved composite of left payload \<open>i\<close> and right payload \<open>i\<close>, for every
  \<open>i < min L R\<close>: the pairs are formed by index alone, and a payload that Pillow does not
  decode or a composite that it does not save ends the step with that exception.
\<close>

theorem pairs_up_to_min:
  assumes lc: "left_count st = length lefts"
    and rc: "right_count st = length rights"
    and lf: "\<forall>i < length lefts. files st (LeftJpg i) = Some (lefts ! i)"
    and rf: "\<forall>i < length rights. files st (RightJpg i) = Some (rights ! i)"
  shows "(pair_frames L name rate st = Inr (ExtractionFailed name (length lefts) (length rights))
            \<longleftrightarrow> min (length lefts) (length rights) = 0)
     \<and> (\<forall>ln. pair_frames L name rate st = Inr ln \<and> 0 < min (length lefts) (length rights)
            \<longrightarrow> (\<exists>frames. ln = Converted name frames rate))
     \<and> (\<forall>frames. 0 < min (length lefts) (length rights) \<longrightarrow>
           (pair_frames L name rate st = Inr (Converted name frames rate) \<longleftrightarrow>
              length frames = min (length lefts) (length rights)
              \<and> (\<forall>i < min (length lefts) (length rights). \<exists>l r.
                    decode L (lefts ! i) = Some l \<and> decode L (rights ! i) = Some r
                  \<and> jpeg_save L (sbs_img l r) = Inr (frames ! i))))"
proof -
  define m where "m = min (length lefts) (length rights)"
  have mm: "min (left_count st) (right_count st) = m"
    by (simp add: m_def lc rc)
  have zero: "pair_frames L name rate st = Inr (ExtractionFailed name (length lefts) (length rights))
            \<longleftrightarrow> m = 0"
    unfolding pair_frames_def Let_def mm by (simp add: lc rc split: sum.splits)
  have conv: "\<exists>frames. ln = Converted name frames rate"
    if p: "pair_frames L name rate st = Inr ln" and pos: "0 < m" for ln
    using p pos unfolding pair_frames_def Let_def mm by (auto split: sum.splits)
  have frames: "pair_frames L name rate st = Inr (Converted name frames rate) \<longleftrightarrow>
              length frames = m
              \<and> (\<forall>i < m. \<exists>l r.
                    decode L (lefts ! i) = Some l \<and> decode L (rights ! i) = Some r
                  \<and> jpeg_save L (sbs_img l r) = Inr (frames ! i))"
    if pos: "0 < m" for frames
  proof -
    have "pair_frames L name rate st = Inr (Converted name frames rate) \<longleftrightarrow>
        merge_frames L st [0..<m] = Inr frames"
      using pos unfolding pair_frames_def Let_def mm by (simp split: sum.splits)
    also have "\<dots> \<longleftrightarrow> length frames = m
       \<and> (\<forall>k < m. \<exists>l r.
           open_frame L st (LeftJpg k) = Inr l
         \<and> open_frame L st (RightJpg k) = Inr r
         \<and> jpeg_save L (sbs_img l r) = Inr (frames ! k))"
      unfolding merge_frames_Inr by simp
    also have "\<dots> \<longleftrightarrow> length frames = m
              \<and> (\<forall>i < m. \<exists>l r.
                    decode L (lefts ! i) = Some l \<and> decode L (rights ! i) = Some r
                  \<and> jpeg_save L (sbs_img l r) = Inr (frames ! i))"
    proof -
      have "\<And>i l. i < m \<Longrightarrow> open_frame L st (LeftJpg i) = Inr l \<longleftrightarrow> decode L (lefts ! i) = Some l"
        using lf by (simp add: open_frame_Inr m_def)
      moreover have "\<And>i r. i < m \<Longrightarrow> open_frame L st (RightJpg i) = Inr r \<longleftrightarrow> decode L (rights ! i) = Some r"
        using rf by (simp add: open_frame_Inr m_def)
      ultimately show ?thesis by auto
    qed
    finally show ?thesis .
  qed
  show ?thesis
    unfolding m_def [symmetric] using zero conv frames by blast
qed

theorem pairs_up_to_min_witness:
  "pair_frames
      \<lparr>float_of_text = (\<lambda>s. None :: nat option),
       decode = (\<lambda>b. Some \<lparr>width = 1, height = 1, pixel = (\<lambda>x y. (hd b, 0, 0))\<rparr>),
       jpeg_save = (\<lambda>im. Inr [fst (pixel im 0 0), fst (pixel im 1 0)])\<rparr>
      ''a.avi'' Default30
      \<lparr>tell = 0, left_count = 2, right_count = 1,
       files = [LeftJpg 0 \<mapsto> [1], LeftJpg 1 \<mapsto> [2], RightJpg 0 \<mapsto> [3]]\<rparr>
    = Inr (Converted ''a.avi'' [[1, 3]] Default30)"
proof -
  let ?L = "\<lparr>float_of_text = (\<lambda>s. None :: nat option),
       decode = (\<lambda>b. Some \<lparr>width = 1, height = 1, pixel = (\<lambda>x y. (hd b, 0, 0))\<rparr>),
       jpeg_save = (\<lambda>im. Inr [fst (pixel im 0 0), fst (pixel im 1 0)])\<rparr>"
  let ?st = "\<lparr>tell = 0, left_count = 2, right_count = 1,
       files = [LeftJpg 0 \<mapsto> [1], LeftJpg 1 \<mapsto> [2], RightJpg 0 \<mapsto> [3]]\<rparr>"
  let ?lefts = "[[1], [2]] :: bytes list"
  let ?rights = "[[3]] :: bytes list"
  have h: "left_count ?st = length ?lefts" "right_count ?st = length ?rights"
    "\<forall>i < length ?lefts. files ?st (LeftJpg i) = Some (?lefts ! i)"
    "\<forall>i < length ?rights. files ?st (RightJpg i) = Some (?rights ! i)"
    by (simp_all add: less_Suc_eq_0_disj)
  have "pair_frames ?L ''a.avi'' Default30 ?st = Inr (Converted ''a.avi'' [[1, 3]] Default30) \<longleftrightarrow>
      length [[1, 3 :: byte]] = min (length ?lefts) (length ?rights)
      \<and> (\<forall>i < min (length ?lefts) (length ?rights). \<exists>l r.
            decode ?L (?lefts ! i) = Some l \<and> decode ?L (?rights ! i) = Some r
          \<and> jpeg_save ?L (sbs_img l r) = Inr ([[1, 3]] ! i))"
    using pairs_up_to_min [OF h, of ?L "''a.avi''" Default30] by simp
  moreover have "length [[1, 3 :: byte]] = min (length ?lefts) (length ?rights)
      \<and> (\<forall>i < min (length ?lefts) (length ?rights). \<exists>l r.
            decode ?L (?lefts ! i) = Some l \<and> decode ?L (?rights ! i) = Some r
          \<and> jpeg_save ?L (sbs_img l r) = Inr ([[1, 3]] ! i))"
    by (simp add: sbs_img_def Let_def paste_def image_new_def)
  ultimately show ?thesis by blast
qed

section \<open>Verification of the batch\<close>

lemma run_files_append:
  "run_files L (xs @ ys) results =
     (case run_files L xs results of Inl e \<Rightarrow> Inl e | Inr rs \<Rightarrow> run_files L ys rs)"
  by (induction xs arbitrary: results) (auto split: sum.splits)

lemma run_files_all_ok:
  assumes "\<forall>inp \<in> set xs. \<exists>ln. process_avi L inp = Inr ln"
  shows "\<exists>rs. run_files L xs results = Inr rs"
  using assms by (induction xs arbitrary: results) (auto split: sum.splits)

lemma read_avi_short: "length buf < 12 \<Longrightarrow> read_avi buf fs = Inl StructError"
  by (simp add: read_avi_def f_read_def Let_def)

lemma process_avi_short:
  assumes "parse_framerate (float_of_text L) (probe_stdout bad) = Inr fr"
    and "length (contents bad) < 12"
  shows "process_avi L bad = Inl StructError"
  using assms by (simp add: process_avi_def read_avi_short)

lemma process_one_empty:
  "file_bytes W p = [] \<Longrightarrow> process_one S W exif_autorotate target_height p = FAIL p ValueError"
  by (simp add: process_one_def read_two_frames_unreal_way_def)

text \<open>
  C8, in \<^verbatim>\<open>main.py\<close>. A file shorter than the 12 bytes of the RIFF header, a zero-byte
  file for one, makes \<^verbatim>\<open>struct.unpack\<close> raise, and nothing catches this inside the loop:
  when the files before it are converted, skipped or reported without an exception, the
  whole call ends with the single text \<^verbatim>\<open>Error: ...\<close>. The lines of the files before
  are lost and the files after are not looked at, so the run does not give one outcome
  for each file. (In \<^verbatim>\<open>main_images.py\<close> the empty file gives its own \<^verbatim>\<open>FAIL\<close> line.)
\<close>

theorem short_file_aborts_container_batch:
  assumes before: "\<forall>inp \<in> set before. \<exists>ln. process_avi L inp = Inr ln"
    and rate: "\<exists>fr. parse_framerate (float_of_text L) (probe_stdout bad) = Inr fr"
    and short: "length (contents bad) < 12"
  shows "convert_all L (before @ bad # after) = Error StructError"
proof -
  from rate obtain fr where fr: "parse_framerate (float_of_text L) (probe_stdout bad) = Inr fr" ..
  obtain rs where rs: "run_files L before [] = Inr rs"
    using run_files_all_ok [OF before] by blast
  have "run_files L (before @ bad # after) [] = run_files L (bad # after) rs"
    by (simp add: run_files_append rs)
  also have "\<dots> = Inl StructError"
    by (simp add: process_avi_short [OF fr short])
  finally show ?thesis by (simp add: convert_all_def)
qed

theorem short_file_aborts_container_batch_witness:
  "process_avi
      \<lparr>float_of_text = (\<lambda>s. None :: nat option),
       decode = (\<lambda>b. Some \<lparr>width = 1, height = 1, pixel = (\<lambda>x y. (hd b, 0, 0))\<rparr>),
       jpeg_save = (\<lambda>im. Inr [fst (pixel im 0 0), fst (pixel im 1 0)])\<rparr>
      \<lparr>avi_name = ''a.avi'', probe_stdout = ''30/1'',
       contents = avi_file [0, 0, 0, 0] []
         [([0x30, 0x30, 0x64, 0x63], [1]), ([0x30, 0x32, 0x64, 0x63], [2])] [],
       tmp_files = Map.empty\<rparr>
     = Inr (Converted ''a.avi'' [[1, 2]] (RoundedQuotient 30 1))
   \<and> convert_all
      \<lparr>float_of_text = (\<lambda>s. None :: nat option),
       decode = (\<lambda>b. Some \<lparr>width = 1, height = 1, pixel = (\<lambda>x y. (hd b, 0, 0))\<rparr>),
       jpeg_save = (\<lambda>im. Inr [fst (pixel im 0 0), fst (pixel im 1 0)])\<rparr>
      ([\<lparr>avi_name = ''a.avi'', probe_stdout = ''30/1'',
         contents = avi_file [0, 0, 0, 0] []
           [([0x30, 0x30, 0x64, 0x63], [1]), ([0x30, 0x32, 0x64, 0x63], [2])] [],
         tmp_files = Map.empty\<rparr>]
       @ \<lparr>avi_name = ''b.avi'', probe_stdout = ''30/1'', contents = [], tmp_files = Map.empty\<rparr>
       # [\<lparr>avi_name = ''c.avi'', probe_stdout = ''30/1'',
         contents = avi_file [0, 0, 0, 0] []
           [([0x30, 0x30, 0x64, 0x63], [1]), ([0x30, 0x32, 0x64, 0x63], [2])] [],
         tmp_files = Map.empty\<rparr>])
     = Error StructError"
proof -
  let ?L = "\<lparr>float_of_text = (\<lambda>s. None :: nat option),
       decode = (\<lambda>b. Some \<lparr>width = 1, height = 1, pixel = (\<lambda>x y. (hd b, 0, 0))\<rparr>),
       jpeg_save = (\<lambda>im. Inr [fst (pixel im 0 0), fst (pixel im 1 0)])\<rparr>"
  let ?subs = "[([0x30, 0x30, 0x64, 0x63], [1]), ([0x30, 0x32, 0x64, 0x63], [2])] :: subchunk list"
  let ?a = "\<lparr>avi_name = ''a.avi'', probe_stdout = ''30/1'',
       contents = avi_file [0, 0, 0, 0] [] ?subs [], tmp_files = Map.empty\<rparr>"
  let ?b = "\<lparr>avi_name = ''b.avi'', probe_stdout = ''30/1'', contents = [], tmp_files = Map.empty\<rparr>"
  let ?c = "\<lparr>avi_name = ''c.avi'', probe_stdout = ''30/1'',
       contents = avi_file [0, 0, 0, 0] [] ?subs [], tmp_files = Map.empty\<rparr>"
  have s: "str_strip ''30/1'' = ''30/1''" "str_strip ''30'' = ''30''" "str_strip ''1'' = ''1''"
    by (rule str_strip_plain, simp_all add: str_isspace_def)+
  have i: "py_int ''30'' = Some 30" "py_int ''1'' = Some 1"
    unfolding py_int_def s by (simp_all add: is_digit_def digits_value_def)
  have fr: "parse_framerate (\<lambda>s. None :: nat option) ''30/1'' = Inr (RoundedQuotient 30 1)"
    unfolding parse_framerate_def s Let_def
    by (simp add: unpack_two_ints_def i truediv_overflows_def)
  have wf: "wf_avi [0, 0, 0, 0] [] ?subs"
    by (simp add: wf_avi_def wf_sub_def movi_body_def encode_sub_def)
  have rd: "read_avi (avi_file [0, 0, 0, 0] [] ?subs []) Map.empty =
      Inr (Some \<lparr>tell = 44, left_count = 1, right_count = 1,
                 files = [LeftJpg 0 \<mapsto> [1], RightJpg 0 \<mapsto> [2]]\<rparr>)"
    unfolding read_avi_well_formed [OF wf]
    by (simp add: emit_def tag_bytes [symmetric] movi_body_def encode_sub_def)
  have pa: "process_avi ?L ?a = Inr (Converted ''a.avi'' [[1, 2]] (RoundedQuotient 30 1))"
    unfolding process_avi_def
    by (simp add: fr rd pair_frames_def open_frame_def sbs_img_def Let_def paste_def image_new_def)
  have 1: "\<forall>inp \<in> set [?a]. \<exists>ln. process_avi ?L inp = Inr ln"
    using pa by simp
  have 2: "\<exists>fr. parse_framerate (float_of_text ?L) (probe_stdout ?b) = Inr fr"
    using fr by simp
  have 3: "length (contents ?b) < 12" by simp
  from short_file_aborts_container_batch [OF 1 2 3, of "[?c]"] pa
  show ?thesis by blast
qed

end
